theory Spec2Isabelle
  imports Complex_Main
begin

section \<open>Messages, plans and the lock\<close>

text \<open>
  A bluesky message carries a command name and the object it addresses.  A plan is a
  Python generator of messages; the model keeps the messages it yields, in order, and the
  way it ends: \<open>Stop\<close> is the generator returning, \<open>Raise e\<close> is the generator raising
  \<open>e\<close>.  \<open>Try m g h\<close> yields \<open>m\<close> at a point inside a \<open>try\<close>: resumed in the normal way it
  goes on as \<open>g\<close>, and when an exception is thrown into it at this point it goes on as
  \<open>h\<close>, its \<open>except\<close> or \<open>finally\<close> clause (a clause that raises again ends in \<open>Raise\<close>).
  At a plain \<open>Yield\<close> there is no handler.  Plans are finite, and every \<open>yield\<close> of a plan
  hands out a new message object.
\<close>

datatype msg = Msg (command: string) (obj: string)

datatype error = IndexError | RuntimeError | AttributeError | PlanFailure string

datatype gen = Stop | Yield msg gen | Try msg gen gen | Raise error

text \<open>The messages of a plan that runs with nothing thrown into it, and how it ends.\<close>

fun msgs_of :: "gen \<Rightarrow> msg list" where
  "msgs_of Stop = []"
| "msgs_of (Yield m g) = m # msgs_of g"
| "msgs_of (Try m g h) = m # msgs_of g"
| "msgs_of (Raise e) = []"

fun ending :: "gen \<Rightarrow> error option" where
  "ending Stop = None"
| "ending (Yield m g) = ending g"
| "ending (Try m g h) = ending g"
| "ending (Raise e) = Some e"

fun gen_size :: "gen \<Rightarrow> nat" where
  "gen_size Stop = 1"
| "gen_size (Yield m g) = Suc (gen_size g)"
| "gen_size (Try m g h) = Suc (gen_size g + gen_size h)"
| "gen_size (Raise e) = 1"

text \<open>
  Resuming a generator: it gives a message and is then suspended with the rest of its
  code and the handler of the point where it stands, or it ends, or it fails.
\<close>

datatype resumption = Gives msg gen "gen option" | Ends | Fails error

fun resume_gen :: "gen \<Rightarrow> resumption" where
  "resume_gen Stop = Ends"
| "resume_gen (Yield m g) = Gives m g None"
| "resume_gen (Try m g h) = Gives m g (Some h)"
| "resume_gen (Raise e) = Fails e"

text \<open>\<open>bluesky.plans.checkpoint()\<close> is a generator of one message, \<open>Msg('checkpoint')\<close>.\<close>

definition checkpoint :: msg where
  "checkpoint = Msg ''checkpoint'' []"

text \<open>
  \<open>threading.Lock\<close>: the state is whether the lock is held.  \<open>acquire(blocking=False)\<close>
  answers whether it got the lock; \<open>release()\<close> of a lock that is not held raises
  \<open>RuntimeError\<close>.
\<close>

definition acquire_nonblocking :: "bool \<Rightarrow> bool \<times> bool" where
  "acquire_nonblocking lk = (if lk then (False, lk) else (True, True))"

definition release :: "bool \<Rightarrow> error + bool" where
  "release lk = (if lk then Inr False else Inl RuntimeError)"

text \<open>
  \<open>branch_choice\<close> reads live devices, so two calls may answer differently: it is a
  function of a state that it may change.  \<open>branches[choice]\<close> is Python list indexing.
\<close>

type_synonym 's selector = "'s \<Rightarrow> int option \<times> 's"

definition py_index :: "'a list \<Rightarrow> int \<Rightarrow> 'a option" where
  "py_index xs i =
     (if 0 \<le> i \<and> i < int (length xs) then Some (xs ! nat i)
      else if - int (length xs) \<le> i \<and> i < 0 then Some (xs ! nat (int (length xs) + i))
      else None)"

section \<open>branching_plan\<close>

text \<open>
  \<open>do_branch\<close>: the generator evaluates \<open>branch_choice\<close> when it is first resumed.  For
  \<open>None\<close> it executes \<open>yield null()\<close>: what it yields is the generator object that the call
  \<open>null()\<close> returns, not a message (compare \<open>yield from checkpoint()\<close> in \<open>new_gen\<close>).  For
  an index it delegates to the branch at that index with \<open>yield from\<close>; an index outside
  \<open>branches\<close> raises \<open>IndexError\<close>.
\<close>

datatype delegate = NullGenerator | Branch gen

definition do_branch :: "gen list \<Rightarrow> 's selector \<Rightarrow> 's \<Rightarrow> delegate \<times> 's" where
  "do_branch branches branch_choice w =
     (case branch_choice w of
        (None, w') \<Rightarrow> (NullGenerator, w')
      | (Some choice, w') \<Rightarrow>
          (case py_index branches choice of
             None \<Rightarrow> (Branch (Raise IndexError), w')
           | Some branch \<Rightarrow> (Branch branch, w')))"

text \<open>
  The points at which \<open>new_gen\<close> can be suspended: not started yet, at the yield of the
  fresh checkpoint, at \<open>yield null()\<close> inside \<open>do_branch\<close>, at a yield of the branch inside
  \<open>do_branch\<close> (with the rest of the branch and the handler of that point), at
  \<open>yield msg\<close>.  A frame of the mutator's plan stack is a plain plan, suspended with its
  rest and the handler of the point where it stands, or a \<open>new_gen\<close> for a message.
\<close>

datatype ng_point = Created | AtCheckpoint | AtNull | InBranch gen "gen option" | AtMsg

datatype frame = Plan gen "gen option" | NewGen ng_point msg

text \<open>
  What resuming a generator of the stack gives: a message (with whether the mutator has
  seen this message object before) and the suspended generator, an object that is not a
  message, its end, an exception, or no answer at all (a blocking acquire of a held
  lock).
\<close>

datatype resumed =
    Yielded msg bool frame
  | YieldedObject frame
  | Stopped
  | Raised error
  | Blocked

text \<open>Leaving \<open>with branch_lock:\<close>, normally or with an exception in flight.\<close>

definition leave_with :: "error option \<Rightarrow> bool \<Rightarrow> error option \<times> bool" where
  "leave_with pending lk =
     (case release lk of
        Inl r \<Rightarrow> (Some r, lk)
      | Inr lk' \<Rightarrow> (pending, lk'))"

definition finished :: "error option \<times> bool \<Rightarrow> resumed \<times> bool" where
  "finished r = (case r of (None, lk) \<Rightarrow> (Stopped, lk) | (Some e, lk) \<Rightarrow> (Raised e, lk))"

text \<open>
  \<open>new_gen\<close> inside \<open>yield from do_branch()\<close>, with the branch going on as \<open>g\<close>: a message of
  the branch is passed up; when the branch ends, \<open>new_gen\<close> goes on to \<open>yield msg\<close>; when
  it fails, the exception leaves \<open>new_gen\<close> through the \<open>with\<close> statement.
\<close>

definition in_branch :: "gen \<Rightarrow> msg \<Rightarrow> bool \<Rightarrow> resumed \<times> bool" where
  "in_branch g m lk =
     (case resume_gen g of
        Gives x g' h \<Rightarrow> (Yielded x False (NewGen (InBranch g' h) m), lk)
      | Ends \<Rightarrow> (Yielded m True (NewGen AtMsg m), lk)
      | Fails e \<Rightarrow> finished (leave_with (Some e) lk))"

definition new_gen :: "gen list \<Rightarrow> 's selector \<Rightarrow> ng_point \<Rightarrow> msg \<Rightarrow> bool \<Rightarrow> 's
    \<Rightarrow> resumed \<times> bool \<times> 's" where
  "new_gen branches branch_choice pt m lk w =
     (case pt of
        Created \<Rightarrow>
          (if lk then (Blocked, lk, w)
           else (case branch_choice w of
                   (None, w') \<Rightarrow> (Yielded m True (NewGen AtMsg m), True, w')
                 | (Some c, w') \<Rightarrow> (Yielded checkpoint False (NewGen AtCheckpoint m), True, w')))
      | AtCheckpoint \<Rightarrow>
          (case do_branch branches branch_choice w of
             (NullGenerator, w') \<Rightarrow> (YieldedObject (NewGen AtNull m), lk, w')
           | (Branch g, w') \<Rightarrow> (case in_branch g m lk of (r, lk') \<Rightarrow> (r, lk', w')))
      | AtNull \<Rightarrow> (Yielded m True (NewGen AtMsg m), lk, w)
      | InBranch g h \<Rightarrow> (case in_branch g m lk of (r, lk') \<Rightarrow> (r, lk', w))
      | AtMsg \<Rightarrow> (case finished (leave_with None lk) of (r, lk') \<Rightarrow> (r, lk', w)))"

text \<open>
  An exception thrown into \<open>new_gen\<close>: before it has started, it is raised at once; at a
  yield of the branch it is passed down to the branch, which goes on as its handler if it
  has one there; anywhere else, and in a branch without a handler, it leaves \<open>new_gen\<close>
  through the \<open>with\<close> statement.
\<close>

definition new_gen_throw :: "ng_point \<Rightarrow> msg \<Rightarrow> error \<Rightarrow> bool \<Rightarrow> resumed \<times> bool" where
  "new_gen_throw pt m e lk =
     (case pt of
        Created \<Rightarrow> (Raised e, lk)
      | InBranch g (Some h) \<Rightarrow> in_branch h m lk
      | _ \<Rightarrow> finished (leave_with (Some e) lk))"

text \<open>
  \<open>branch_handler\<close>: on a message of the branching kind it tries the lock without
  blocking; with the lock in hand it defines \<open>new_gen\<close> for the message, and its \<open>finally\<close>
  releases the lock and returns the new generator (the release follows a successful
  acquire, so it does not fail).  Otherwise the answer is \<open>(None, None)\<close>: no replacement.
\<close>

definition branch_handler :: "string \<Rightarrow> msg \<Rightarrow> bool \<Rightarrow> frame option \<times> bool" where
  "branch_handler branch_msg m lk =
     (if command m = branch_msg then
        (case acquire_nonblocking lk of
           (True, lk1) \<Rightarrow>
             (case release lk1 of
                Inr lk2 \<Rightarrow> (Some (NewGen Created m), lk2)
              | Inl e \<Rightarrow> (Some (NewGen Created m), lk1))
         | (False, lk1) \<Rightarrow> (None, lk1))
      else (None, lk))"

section \<open>plan_mutator\<close>

text \<open>
  \<open>bluesky.plans.plan_mutator(plan, msg_proc)\<close> keeps a stack of generators.  Each turn of
  its loop resumes the top generator, throwing the stashed exception into it if there is
  one.  An exhausted generator is popped; a generator that fails is popped and its
  exception is stashed for the generator below, or leaves the mutator when there is none.
  What the generator yields goes to \<open>msg_proc\<close> unless the mutator has seen that object
  before, and a generator that \<open>msg_proc\<close> returns is pushed in place of the message; any
  other message is yielded out.  The stash is cleared when the generator answers a throw
  with a message.  The trace records each message yielded out together with whether the
  lock was held at that moment.
\<close>

record 's config =
  plan_stack :: "frame list"
  exception :: "error option"
  branch_lock :: bool
  world :: 's
  emitted :: "(msg \<times> bool) list"

datatype outcome = Returned | Failed error | Hangs

text \<open>
  \<open>send\<close> resumes the generator on top of the stack and \<open>throw\<close> throws the stashed
  exception into it.  A plain plan that stands at a point with a handler goes on as that
  handler; without one (and before it has started) the exception comes back out of it.
  The only message object that is yielded twice is the original message that \<open>new_gen\<close>
  yields again.
\<close>

definition plan_step :: "resumption \<Rightarrow> resumed" where
  "plan_step r =
     (case r of
        Gives x g' h' \<Rightarrow> Yielded x False (Plan g' h')
      | Ends \<Rightarrow> Stopped
      | Fails e \<Rightarrow> Raised e)"

definition send :: "gen list \<Rightarrow> 's selector \<Rightarrow> frame \<Rightarrow> bool \<Rightarrow> 's \<Rightarrow> resumed \<times> bool \<times> 's" where
  "send branches branch_choice f lk w =
     (case f of
        Plan g h \<Rightarrow> (plan_step (resume_gen g), lk, w)
      | NewGen pt m \<Rightarrow> new_gen branches branch_choice pt m lk w)"

definition throw :: "frame \<Rightarrow> error \<Rightarrow> bool \<Rightarrow> resumed \<times> bool" where
  "throw f e lk =
     (case f of
        Plan g h \<Rightarrow>
          (case h of
             None \<Rightarrow> (Raised e, lk)
           | Some handler \<Rightarrow> (plan_step (resume_gen handler), lk))
      | NewGen pt m \<Rightarrow> new_gen_throw pt m e lk)"

text \<open>
  What the loop does with the answer of the top generator \<open>f\<close>, the rest of the stack
  being \<open>fs\<close>.  \<open>branch_handler\<close> reads \<open>msg.command\<close>: for an object that is not a message
  this raises \<open>AttributeError\<close> in the loop itself, which ends the run there, the
  generators still on the stack.
\<close>

definition settle :: "string \<Rightarrow> 's config \<Rightarrow> frame list \<Rightarrow> resumed \<times> bool \<times> 's
    \<Rightarrow> outcome option \<times> 's config" where
  "settle branch_msg c fs answer =
     (case answer of
        (Stopped, lk, w) \<Rightarrow>
          (if fs = []
           then (Some Returned, c\<lparr>plan_stack := [], branch_lock := lk, world := w\<rparr>)
           else (None, c\<lparr>plan_stack := fs, branch_lock := lk, world := w\<rparr>))
      | (Raised e, lk, w) \<Rightarrow>
          (if fs = []
           then (Some (Failed e), c\<lparr>plan_stack := [], exception := Some e,
                                   branch_lock := lk, world := w\<rparr>)
           else (None, c\<lparr>plan_stack := fs, exception := Some e,
                         branch_lock := lk, world := w\<rparr>))
      | (Blocked, lk, w) \<Rightarrow> (Some Hangs, c)
      | (YieldedObject f', lk, w) \<Rightarrow>
          (Some (Failed AttributeError),
           c\<lparr>plan_stack := f' # fs, exception := None, branch_lock := lk, world := w\<rparr>)
      | (Yielded m seen f', lk, w) \<Rightarrow>
          (case (if seen then (None, lk) else branch_handler branch_msg m lk) of
             (Some ng, lk') \<Rightarrow>
               (None, c\<lparr>plan_stack := ng # f' # fs, exception := None,
                        branch_lock := lk', world := w\<rparr>)
           | (None, lk') \<Rightarrow>
               (None, c\<lparr>plan_stack := f' # fs, exception := None, branch_lock := lk',
                        world := w, emitted := emitted c @ [(m, lk')]\<rparr>)))"

definition step :: "gen list \<Rightarrow> 's selector \<Rightarrow> string \<Rightarrow> 's config
    \<Rightarrow> outcome option \<times> 's config" where
  "step branches branch_choice branch_msg c =
     (case plan_stack c of
        [] \<Rightarrow> (Some (Failed IndexError), c)
      | f # fs \<Rightarrow>
          (case exception c of
             Some e \<Rightarrow>
               (case throw f e (branch_lock c) of
                  (r, lk) \<Rightarrow> settle branch_msg c fs (r, lk, world c))
           | None \<Rightarrow>
               settle branch_msg c fs (send branches branch_choice f (branch_lock c) (world c))))"

text \<open>
  The loop ends: each turn lowers a weight of the stack.  While the lock is held no
  message is replaced, so the frames down to the first \<open>new_gen\<close> weigh what they can
  still yield; a frame that runs with the lock free also pays for a \<open>new_gen\<close> for each
  message it can still yield.
\<close>

definition branch_bound :: "gen list \<Rightarrow> nat" where
  "branch_bound branches = sum_list (map gen_size branches) + 2"

fun handler_size :: "gen option \<Rightarrow> nat" where
  "handler_size None = 0"
| "handler_size (Some h) = gen_size h"

fun remaining :: "nat \<Rightarrow> ng_point \<Rightarrow> nat" where
  "remaining b Created = 1"
| "remaining b AtCheckpoint = b + 3"
| "remaining b AtNull = 2"
| "remaining b (InBranch g h) = gen_size g + handler_size h + 2"
| "remaining b AtMsg = 1"

fun weight_free :: "nat \<Rightarrow> frame \<Rightarrow> nat" where
  "weight_free b (Plan g h) = (gen_size g + handler_size h) * (b + 6)"
| "weight_free b (NewGen Created m) = b + 5"
| "weight_free b (NewGen pt m) = remaining b pt * (b + 6)"

fun weight_held :: "nat \<Rightarrow> frame list \<Rightarrow> nat" where
  "weight_held b [] = 0"
| "weight_held b (Plan g h # fs) = gen_size g + handler_size h + weight_held b fs"
| "weight_held b (NewGen pt m # fs) = remaining b pt + sum_list (map (weight_free b) fs)"

definition stack_weight :: "nat \<Rightarrow> bool \<Rightarrow> frame list \<Rightarrow> nat" where
  "stack_weight b lk fs =
     (if lk then weight_held b fs else sum_list (map (weight_free b) fs))"

definition weight :: "gen list \<Rightarrow> 's config \<Rightarrow> nat" where
  "weight branches c = stack_weight (branch_bound branches) (branch_lock c) (plan_stack c)"

text \<open>The loop of \<open>plan_mutator\<close>: turns are taken until one of them ends the run.\<close>

function run :: "gen list \<Rightarrow> 's selector \<Rightarrow> string \<Rightarrow> 's config \<Rightarrow> outcome \<times> 's config" where
  "run branches branch_choice branch_msg c =
     (case step branches branch_choice branch_msg c of
        (Some r, c') \<Rightarrow> (r, c')
      | (None, c') \<Rightarrow> run branches branch_choice branch_msg c')"
  by pat_completeness auto

text \<open>
  \<open>branching_plan\<close> makes a new, free lock and runs the mutator on the primary plan with
  \<open>branch_handler\<close> as the message processor.  \<open>stream\<close> is the sequence of messages that
  came out.
\<close>

definition initial :: "gen \<Rightarrow> 's \<Rightarrow> 's config" where
  "initial plan w =
     \<lparr>plan_stack = [Plan plan None], exception = None, branch_lock = False, world = w,
        emitted = []\<rparr>"

definition branching_plan :: "gen \<Rightarrow> gen list \<Rightarrow> 's selector \<Rightarrow> string \<Rightarrow> 's
    \<Rightarrow> outcome \<times> 's config" where
  "branching_plan plan branches branch_choice branch_msg w =
     run branches branch_choice branch_msg (initial plan w)"

definition stream :: "'s config \<Rightarrow> msg list" where
  "stream c = map fst (emitted c)"

text \<open>The configuration after a number of turns of the loop (the last one, once it has ended).\<close>

fun turns :: "gen list \<Rightarrow> 's selector \<Rightarrow> string \<Rightarrow> nat \<Rightarrow> 's config \<Rightarrow> 's config" where
  "turns branches branch_choice branch_msg 0 c = c"
| "turns branches branch_choice branch_msg (Suc n) c =
     (case step branches branch_choice branch_msg c of
        (Some r, c') \<Rightarrow> c'
      | (None, c') \<Rightarrow> turns branches branch_choice branch_msg n c')"

fun is_new_gen :: "frame \<Rightarrow> bool" where
  "is_new_gen (NewGen pt m) = True"
| "is_new_gen (Plan g h) = False"

text \<open>
  The scenario of the specification: the primary plan
  \<open>[Checkpoint, Move(A), Checkpoint, Move(B)]\<close> and a recovery branch \<open>[Move(R)]\<close>; a second
  branch \<open>[Move(S)]\<close>, a branch that fails after \<open>Move(R)\<close>, and a primary plan that stands
  in a \<open>try\<close> at its first checkpoint, with a handler that moves home and returns.
\<close>

definition move :: "string \<Rightarrow> msg" where
  "move x = Msg ''set'' x"

definition scenario_plan :: gen where
  "scenario_plan = Yield checkpoint (Yield (move ''A'') (Yield checkpoint (Yield (move ''B'') Stop)))"

definition recover_branch :: gen where
  "recover_branch = Yield (move ''R'') Stop"

definition second_branch :: gen where
  "second_branch = Yield (move ''S'') Stop"

definition failing_branch :: gen where
  "failing_branch = Yield (move ''R'') (Raise (PlanFailure ''motion fault''))"

definition guarded_plan :: gen where
  "guarded_plan =
     Try checkpoint (Yield (move ''A'') (Yield checkpoint (Yield (move ''B'') Stop)))
       (Yield (move ''home'') Stop)"

text \<open>
  The shape of the stack in every configuration that a run goes through: at most one
  \<open>new_gen\<close>, on top, and the lock is held exactly when that \<open>new_gen\<close> has been started.
\<close>

definition no_new_gen :: "frame list \<Rightarrow> bool" where
  "no_new_gen fs = (filter is_new_gen fs = [])"

definition engine_inv :: "'s config \<Rightarrow> bool" where
  "engine_inv c =
     (case plan_stack c of
        [] \<Rightarrow> \<not> branch_lock c
      | Plan g h # fs \<Rightarrow> no_new_gen fs \<and> \<not> branch_lock c
      | NewGen pt m # fs \<Rightarrow> no_new_gen fs \<and> (branch_lock c \<longleftrightarrow> pt \<noteq> Created))"

text \<open>The selector that never asks for a branch (the default of \<open>skywalker\<close>).\<close>

definition never :: "'s selector" where
  "never w = (None, w)"

text \<open>A selector that answers from a script, one entry for each call, and \<open>None\<close> after it.\<close>

definition scripted :: "int option list selector" where
  "scripted s = (case s of [] \<Rightarrow> (None, []) | a # s' \<Rightarrow> (a, s'))"

section \<open>Devices, recovery plans and the selector of the HOMS system\<close>

text \<open>
  The imagers (\<open>PIM\<close>) and mirrors (\<open>OffsetMirror\<close>) as far as this module reads them.  The
  signal \<open>yag.detector.stats2.centroid.y\<close> is an object of the control system; it is kept
  by name.  Positions of mirrors and goals are numbers, taken as reals.
\<close>

record pim =
  pim_name :: string
  pim_repr :: string
  pim_position :: string
  centroid_y :: string

record mirror =
  mirror_name :: string
  mirror_position :: real
  low_limit :: real
  high_limit :: real

definition get_thresh_signal :: "pim \<Rightarrow> string" where
  "get_thresh_signal yag = centroid_y yag"

text \<open>
  The plan stubs \<open>prep_img_motors\<close> and \<open>recover_threshold\<close> come from
  \<open>pswalker.plan_stubs\<close>; a recovery plan is kept as the calls it makes, with their
  arguments.
\<close>

datatype stub =
    prep_img_motors int "pim list" real
  | recover_threshold string real mirror int real bool

definition make_homs_recover :: "pim list \<Rightarrow> int \<Rightarrow> mirror \<Rightarrow> real \<Rightarrow> real \<Rightarrow> (pim \<Rightarrow> string)
    \<Rightarrow> error + stub list" where
  "make_homs_recover yags yag_index motor threshold center get_signal =
     (case py_index yags yag_index of
        None \<Rightarrow> Inl IndexError
      | Some yag \<Rightarrow>
          (let sig = get_signal yag;
               dir_init = (if mirror_position motor < center then 1 else - 1)
           in Inr [prep_img_motors yag_index yags 10,
                   recover_threshold sig threshold motor dir_init 120 False]))"

fun scan_direction :: "stub \<Rightarrow> int option" where
  "scan_direction (prep_img_motors i yags t) = None"
| "scan_direction (recover_threshold sig th motor d t has_stop) = Some d"

text \<open>
  \<open>make_pick_recover\<close>: the first statement of \<open>pick_recover\<close> is \<open>return None\<close>, so the
  sampling code after it is never reached and the selector reads no device.
\<close>

definition make_pick_recover :: "pim \<Rightarrow> pim \<Rightarrow> real list \<Rightarrow> 's selector" where
  "make_pick_recover yag1 yag2 threshold = (\<lambda>w. (None, w))"

section \<open>homs_skywalker and its metadata\<close>

text \<open>
  Metadata values, and the dictionary \<open>_md\<close> (here \<open>the_md\<close>) as a map; \<open>_md.update(md or {})\<close> lets the
  caller's entries replace the ones set here.
\<close>

datatype mdval =
    Num real
  | Nums "real list"
  | Str string
  | Strs "string list"
  | Dict "(string \<times> mdval) list"

type_synonym metadata = "string \<rightharpoonup> mdval"

definition md_or_empty :: "metadata option \<Rightarrow> metadata" where
  "md_or_empty md = (case md of None \<Rightarrow> Map.empty | Some d \<Rightarrow> d)"

text \<open>
  \<open>skywalker\<close> opens a run with its metadata and hands the goals to \<open>iterwalk\<close> (from
  \<open>pswalker.iterwalk\<close>) under \<open>branching_plan\<close>; the record keeps the metadata and what
  \<open>iterwalk\<close> is called with.
\<close>

record walk =
  run_md :: metadata
  walk_detectors :: "pim list"
  walk_motors :: "mirror list"
  walk_goals :: "real list"
  walk_first_steps :: real
  walk_gradients :: "real list"
  walk_tolerances :: real
  walk_averages :: real
  walk_timeout :: real
  detector_fields :: string
  motor_fields :: string

definition skywalker :: "pim list \<Rightarrow> mirror list \<Rightarrow> string \<Rightarrow> string \<Rightarrow> real list \<Rightarrow> real
    \<Rightarrow> real list \<Rightarrow> real \<Rightarrow> real \<Rightarrow> real \<Rightarrow> metadata option \<Rightarrow> walk" where
  "skywalker detectors motors det_fields mot_fields goals first_steps gradients tolerances
      averages timeout md =
     \<lparr>run_md =
        [''goals'' \<mapsto> Nums goals,
         ''detectors'' \<mapsto> Strs (map pim_name detectors),
         ''mirrors'' \<mapsto> Strs (map mirror_name motors),
         ''plan_name'' \<mapsto> Str ''homs_skywalker'',
         ''plan_args'' \<mapsto> Dict [(''goals'', Nums goals), (''gradients'', Nums gradients),
            (''tolerances'', Num tolerances), (''averages'', Num averages),
            (''timeout'', Num timeout), (''det_fields'', Strs [det_fields]),
            (''mot_fields'', Strs [mot_fields]), (''first_steps'', Num first_steps)]]
        ++ md_or_empty md,
      walk_detectors = detectors, walk_motors = motors, walk_goals = goals,
      walk_first_steps = first_steps, walk_gradients = gradients,
      walk_tolerances = tolerances, walk_averages = averages, walk_timeout = timeout,
      detector_fields = det_fields, motor_fields = mot_fields\<rparr>"

definition pitch_key :: string where
  "pitch_key = ''pitch''"

definition cent_x_key :: string where
  "cent_x_key = ''detector_stats2_centroid_y''"

text \<open>
  \<open>homs_system()\<close> builds the devices of the beamline; here it is given: the imagers by
  their keys and the two mirrors \<open>m1h\<close> and \<open>m2h\<close>.  \<open>y1\<close> and \<open>y2\<close> are a key of the system
  or an imager.  The result is the metadata of the run that \<open>homs_skywalker\<close> opens and the
  run of \<open>skywalker\<close> inside it.
\<close>

record homs =
  imagers :: "string \<rightharpoonup> pim"
  m1h :: mirror
  m2h :: mirror

datatype lookup_error = KeyError string

definition resolve :: "homs \<Rightarrow> string + pim \<Rightarrow> lookup_error + pim" where
  "resolve system y =
     (case y of
        Inl key \<Rightarrow> (case imagers system key of None \<Rightarrow> Inl (KeyError key) | Some d \<Rightarrow> Inr d)
      | Inr d \<Rightarrow> Inr d)"

definition homs_skywalker :: "homs \<Rightarrow> real list \<Rightarrow> string + pim \<Rightarrow> string + pim
    \<Rightarrow> real list option \<Rightarrow> real \<Rightarrow> real \<Rightarrow> real \<Rightarrow> real list \<Rightarrow> metadata option \<Rightarrow> real
    \<Rightarrow> lookup_error + metadata \<times> walk" where
  "homs_skywalker system goals y1 y2 gradients tolerances averages timeout has_beam_floor md
      first_steps =
     (let gradients = (case gradients of None \<Rightarrow> [- 4000, 32000] | Some g \<Rightarrow> g) in
      case resolve system y1 of
        Inl e \<Rightarrow> Inl e
      | Inr y1 \<Rightarrow>
      (case resolve system y2 of
        Inl e \<Rightarrow> Inl e
      | Inr y2 \<Rightarrow>
      (let m1h = (m1h system)\<lparr>low_limit := - 150, high_limit := 250\<rparr>;
           m2h = (m2h system)\<lparr>low_limit := - 290, high_limit := 110\<rparr>;
           m1 = m1h;
           m2 = m2h;
           the_md = [''goals'' \<mapsto> Nums goals,
                  ''detectors'' \<mapsto> Strs [pim_name y1, pim_name y2],
                  ''mirrors'' \<mapsto> Strs [mirror_name m1, mirror_name m2],
                  ''plan_name'' \<mapsto> Str ''homs_skywalker'',
                  ''plan_args'' \<mapsto> Dict [(''goals'', Nums goals), (''y1'', Str (pim_repr y1)),
                     (''y2'', Str (pim_repr y2)), (''gradients'', Nums gradients),
                     (''tolerances'', Num tolerances), (''averages'', Num averages),
                     (''timeout'', Num timeout), (''has_beam_floor'', Nums has_beam_floor),
                     (''first_steps'', Num first_steps)]]
                 ++ md_or_empty md;
           goals = map (\<lambda>g. 480 - g) goals
       in Inr (the_md, skywalker [y1, y2] [m1h, m2h] cent_x_key pitch_key goals first_steps
                      gradients tolerances averages timeout None))))"

text \<open>Devices for the scenarios: the two imagers \<open>hx2\<close> and \<open>dg3\<close> and the two mirrors.\<close>

definition hx2_imager :: pim where
  "hx2_imager = \<lparr>pim_name = ''hx2'', pim_repr = ''PIM(hx2)'', pim_position = ''IN'',
                   centroid_y = ''hx2_centroid_y''\<rparr>"

definition dg3_imager :: pim where
  "dg3_imager = \<lparr>pim_name = ''dg3'', pim_repr = ''PIM(dg3)'', pim_position = ''OUT'',
                   centroid_y = ''dg3_centroid_y''\<rparr>"

definition m1h_at :: "real \<Rightarrow> mirror" where
  "m1h_at x = \<lparr>mirror_name = ''m1h'', mirror_position = x, low_limit = - 150, high_limit = 250\<rparr>"

definition m2h_at :: "real \<Rightarrow> mirror" where
  "m2h_at x = \<lparr>mirror_name = ''m2h'', mirror_position = x, low_limit = - 290, high_limit = 110\<rparr>"

definition homs_devices :: homs where
  "homs_devices =
     \<lparr>imagers = [''hx2'' \<mapsto> hx2_imager, ''dg3'' \<mapsto> dg3_imager,
                  ''y1'' \<mapsto> hx2_imager, ''y2'' \<mapsto> dg3_imager],
      m1h = m1h_at 100, m2h = m2h_at 100\<rparr>"

section \<open>Pruning a path\<close>

text \<open>
  Modelled from the spec: \<open>pswalker.path.prune_path\<close>; the module \<open>pswalker/path.py\<close> is not
  among the sources, only its test is.  The specification asks for a filtered collection
  that holds the original devices without the excluded ones, in a new path, with the
  original left as it was.  Devices are objects, known by their address; paths live in a
  store, and a path is addressed by its place in it.
\<close>

type_synonym device_ref = nat

record path =
  devices :: "device_ref list"

definition prune_path :: "path list \<Rightarrow> nat \<Rightarrow> device_ref list \<Rightarrow> nat \<times> path list" where
  "prune_path store p exclude =
     (length store,
      store @ [\<lparr>devices = filter (\<lambda>d. d \<notin> set exclude) (devices (store ! p))\<rparr>])"

section \<open>Termination of the mutator loop\<close>

lemma weight_held_le: "weight_held b fs \<le> sum_list (map (weight_free b) fs)"
proof (induction fs)
  case Nil show ?case by simp
next
  case (Cons f fs)
  have le: "n \<le> n * (b + 6)" for n :: nat by simp
  show ?case
  proof (cases f)
    case (Plan g h)
    with Cons le[of "gen_size g + handler_size h"] show ?thesis by (simp add: add_mono)
  next
    case (NewGen pt m)
    from le[of "remaining b pt"] NewGen show ?thesis
      by (cases pt) (simp_all del: mult_Suc_right add: add_mono)
  qed
qed

lemma gen_size_pos: "0 < gen_size g" by (cases g) simp_all

lemma elem_le_sum_list: "x \<in> set xs \<Longrightarrow> f x \<le> sum_list (map f xs)" for f :: "'a \<Rightarrow> nat"
  by (induction xs) auto

lemma py_index_mem: "py_index xs i = Some x \<Longrightarrow> x \<in> set xs"
  by (auto simp: py_index_def split: if_splits)

lemma do_branch_bound:
  "do_branch bs bc w = (Branch g, w') \<Longrightarrow> gen_size g \<le> branch_bound bs"
  by (auto simp: do_branch_def branch_bound_def split: prod.splits option.splits
      dest!: py_index_mem elem_le_sum_list[where f = gen_size])

lemma branch_handler_cases:
  "branch_handler bm m lk = (r, lk') \<Longrightarrow> lk' = lk \<and> (r = None \<or> (r = Some (NewGen Created m) \<and> \<not> lk))"
  by (auto simp: branch_handler_def acquire_nonblocking_def release_def split: if_splits)

lemma resume_gen_smaller:
  "resume_gen g = Gives x g' h \<Longrightarrow> gen_size g' + handler_size h < gen_size g"
  by (cases g) auto

lemma in_branch_yield:
  "in_branch g m lk = (Yielded x seen f', lk') \<Longrightarrow>
     lk' = lk \<and> (\<exists>pt. f' = NewGen pt m \<and> pt \<noteq> Created \<and> remaining b pt < gen_size g + 2)"
  by (cases g) (auto simp: in_branch_def finished_def leave_with_def release_def split: if_splits)

lemma in_branch_end:
  "in_branch g m lk = (Stopped, lk') \<Longrightarrow> \<not> lk'"
  "in_branch g m lk = (Raised e, lk') \<Longrightarrow> \<not> lk'"
  by (cases g; auto simp: in_branch_def finished_def leave_with_def release_def split: if_splits)+

lemma weight_free_NewGen:
  "pt \<noteq> Created \<Longrightarrow> weight_free b (NewGen pt m) = remaining b pt * (b + 6)"
  by (cases pt) simp_all

lemma mult_step: "(r'::nat) < r \<Longrightarrow> r' * (b + 6) + (b + 5) < r * (b + 6)"
proof -
  assume "r' < r"
  then have "Suc r' * (b + 6) \<le> r * (b + 6)" by (intro mult_le_mono1) simp
  moreover have "r' * (b + 6) + (b + 5) < Suc r' * (b + 6)" by simp
  ultimately show ?thesis by linarith
qed

lemma new_gen_point_weight:
  assumes "pt' \<noteq> Created" "remaining b pt' < remaining b pt" "pt \<noteq> Created"
  shows "stack_weight b lk (NewGen pt' m # fs) + (if lk then 0 else b + 5)
           < stack_weight b lk (NewGen pt m # fs)"
  using assms mult_step[OF assms(2), of b]
  by (simp add: stack_weight_def weight_free_NewGen del: mult_Suc_right)

lemma new_gen_yield_weight:
  assumes "new_gen bs bc pt m lk w = (Yielded x seen f', lk', w')"
  shows "stack_weight (branch_bound bs) lk' (f' # fs) + (if lk' then 0 else branch_bound bs + 5)
           < stack_weight (branch_bound bs) lk (NewGen pt m # fs)"
proof (cases pt)
  case Created
  with assms show ?thesis
    by (auto simp: new_gen_def stack_weight_def split: if_splits prod.splits option.splits)
next
  case AtCheckpoint
  with assms obtain g w1 where d: "do_branch bs bc w = (Branch g, w1)"
    and i: "in_branch g m lk = (Yielded x seen f', lk')"
    by (auto simp: new_gen_def split: prod.splits delegate.splits)
  from in_branch_yield[OF i, of "branch_bound bs"] obtain pt' where
    f': "lk' = lk" "f' = NewGen pt' m" "pt' \<noteq> Created" "remaining (branch_bound bs) pt' < gen_size g + 2"
    by blast
  with do_branch_bound[OF d] have r: "remaining (branch_bound bs) pt' < remaining (branch_bound bs) pt"
    using AtCheckpoint by simp
  from new_gen_point_weight[OF f'(3) r] f' AtCheckpoint show ?thesis by simp
next
  case AtNull
  with assms have f': "lk' = lk" "f' = NewGen AtMsg m" by (auto simp: new_gen_def)
  have "remaining (branch_bound bs) AtMsg < remaining (branch_bound bs) pt" using AtNull by simp
  from new_gen_point_weight[OF _ this] f' AtNull show ?thesis by simp
next
  case (InBranch g h)
  with assms have i: "in_branch g m lk = (Yielded x seen f', lk')"
    by (auto simp: new_gen_def split: prod.splits)
  from in_branch_yield[OF i, of "branch_bound bs"] obtain pt' where
    f': "lk' = lk" "f' = NewGen pt' m" "pt' \<noteq> Created" "remaining (branch_bound bs) pt' < gen_size g + 2"
    by blast
  then have r: "remaining (branch_bound bs) pt' < remaining (branch_bound bs) pt"
    using InBranch by simp
  from new_gen_point_weight[OF f'(3) r] f' InBranch show ?thesis by simp
next
  case AtMsg
  with assms show ?thesis
    by (auto simp: new_gen_def finished_def leave_with_def release_def split: if_splits prod.splits)
qed

lemma plan_step_weight:
  assumes "plan_step (resume_gen g) = Yielded x seen f'"
    and "gen_size g \<le> gen_size g0 + handler_size h0"
  shows "stack_weight b lk (f' # fs) + (if lk then 0 else b + 5)
           < stack_weight b lk (Plan g0 h0 # fs)"
proof -
  from assms(1) obtain g' h' where r: "resume_gen g = Gives x g' h'" and f': "f' = Plan g' h'"
    by (cases "resume_gen g") (auto simp: plan_step_def)
  from resume_gen_smaller[OF r] assms(2)
  have lt: "gen_size g' + handler_size h' < gen_size g0 + handler_size h0" by simp
  from mult_step[OF lt, of b] lt f' show ?thesis
    by (simp add: stack_weight_def del: mult_Suc_right)
qed

lemma send_yield_weight:
  assumes "send bs bc f lk w = (Yielded x seen f', lk', w')"
  shows "stack_weight (branch_bound bs) lk' (f' # fs) + (if lk' then 0 else branch_bound bs + 5)
           < stack_weight (branch_bound bs) lk (f # fs)"
proof (cases f)
  case (Plan g h)
  with assms have p: "plan_step (resume_gen g) = Yielded x seen f'" and lk: "lk' = lk"
    by (simp_all add: send_def)
  from plan_step_weight[OF p, of g h "branch_bound bs" lk fs] lk Plan
  show ?thesis by simp
next
  case (NewGen pt m)
  with assms have "new_gen bs bc pt m lk w = (Yielded x seen f', lk', w')"
    by (simp add: send_def)
  from new_gen_yield_weight[OF this] NewGen show ?thesis by simp
qed

lemma throw_yield_weight:
  assumes "throw f e lk = (Yielded x seen f', lk')"
  shows "stack_weight b lk' (f' # fs) + (if lk' then 0 else b + 5)
           < stack_weight b lk (f # fs)"
proof (cases f)
  case (Plan g h)
  with assms obtain hh where h: "h = Some hh"
    and p: "plan_step (resume_gen hh) = Yielded x seen f'" and lk: "lk' = lk"
    by (cases h) (auto simp: throw_def)
  from plan_step_weight[OF p, of g h b lk fs] lk Plan h
  show ?thesis by simp
next
  case (NewGen pt m)
  with assms obtain g hh where pt: "pt = InBranch g (Some hh)"
    and i: "in_branch hh m lk = (Yielded x seen f', lk')"
    by (cases pt)
      (auto simp: throw_def new_gen_throw_def finished_def leave_with_def release_def
        split: option.splits if_splits)
  from in_branch_yield[OF i, of b] obtain pt' where
    f': "lk' = lk" "f' = NewGen pt' m" "pt' \<noteq> Created" "remaining b pt' < gen_size hh + 2"
    by blast
  then have r: "remaining b pt' < remaining b pt" using pt by simp
  from new_gen_point_weight[OF f'(3) r] f' NewGen pt show ?thesis by simp
qed

lemma new_gen_end:
  assumes "new_gen bs bc pt m lk w = (r, lk', w')" "r = Stopped \<or> r = Raised e"
  shows "\<not> lk'"
proof (cases pt)
  case Created
  with assms show ?thesis
    by (auto simp: new_gen_def split: if_splits prod.splits option.splits)
next
  case AtCheckpoint
  with assms show ?thesis
    by (auto simp: new_gen_def split: prod.splits delegate.splits dest: in_branch_end)
next
  case AtNull
  with assms show ?thesis by (auto simp: new_gen_def)
next
  case (InBranch g h)
  with assms show ?thesis
    by (auto simp: new_gen_def split: prod.splits dest: in_branch_end)
next
  case AtMsg
  with assms show ?thesis
    by (auto simp: new_gen_def finished_def leave_with_def release_def split: if_splits prod.splits)
qed

lemma remaining_pos: "0 < remaining b pt" by (cases pt) simp_all

lemma weight_free_pos: "0 < weight_free b f"
proof (cases f)
  case (Plan g h) then show ?thesis by (simp add: gen_size_pos)
next
  case (NewGen pt m) then show ?thesis by (cases pt) (simp_all add: gen_size_pos)
qed

lemma send_end_weight:
  assumes "send bs bc f lk w = (r, lk', w')" "r = Stopped \<or> r = Raised e"
  shows "stack_weight (branch_bound bs) lk' fs < stack_weight (branch_bound bs) lk (f # fs)"
proof (cases f)
  case (Plan g h)
  with assms(1) have "lk' = lk" by (simp add: send_def)
  with Plan show ?thesis
    by (cases lk) (simp_all add: stack_weight_def gen_size_pos)
next
  case (NewGen pt m)
  with assms(1) have "new_gen bs bc pt m lk w = (r, lk', w')" by (simp add: send_def)
  from new_gen_end[OF this assms(2)] have "\<not> lk'" .
  with NewGen show ?thesis
    using weight_free_pos[of "branch_bound bs" "NewGen pt m"] remaining_pos[of "branch_bound bs" pt]
    by (cases lk) (simp_all add: stack_weight_def)
qed

lemma throw_end_weight:
  assumes "throw f e lk = (r, lk')" "r = Stopped \<or> r = Raised e'"
  shows "stack_weight b lk' fs < stack_weight b lk (f # fs)"
proof (cases f)
  case (Plan g h)
  with assms(1) have "lk' = lk" by (cases h) (simp_all add: throw_def)
  with Plan show ?thesis
    by (cases lk) (simp_all add: stack_weight_def gen_size_pos)
next
  case (NewGen pt m)
  show ?thesis
  proof (cases "pt = Created")
    case True
    with assms NewGen have "lk' = lk" by (simp add: throw_def new_gen_throw_def)
    with NewGen True show ?thesis using weight_held_le[of b fs]
      by (cases lk) (simp_all add: stack_weight_def)
  next
    case False
    with assms NewGen have "\<not> lk'"
      by (cases pt)
        (auto simp: throw_def new_gen_throw_def finished_def leave_with_def release_def
          split: if_splits option.splits dest: in_branch_end)
    with NewGen show ?thesis
      using weight_free_pos[of b "NewGen pt m"] remaining_pos[of b pt]
      by (cases lk) (simp_all add: stack_weight_def)
  qed
qed

lemma settle_decreases:
  assumes "settle bm c fs (r, lk, w) = (None, c')"
    and yield: "\<And>x seen f'. r = Yielded x seen f' \<Longrightarrow>
       stack_weight b lk (f' # fs) + (if lk then 0 else b + 5) < n"
    and ended: "r = Stopped \<or> (\<exists>e. r = Raised e) \<Longrightarrow> stack_weight b lk fs < n"
  shows "stack_weight b (branch_lock c') (plan_stack c') < n"
proof (cases r)
  case (Yielded m seen f')
  obtain ng lk' where h: "(if seen then (None, lk) else branch_handler bm m lk) = (ng, lk')"
    by (cases "if seen then (None, lk) else branch_handler bm m lk")
  then have hc: "lk' = lk \<and> (ng = None \<or> (ng = Some (NewGen Created m) \<and> \<not> lk))"
    using branch_handler_cases[of bm m lk ng lk'] by (auto split: if_splits)
  note d = yield[OF Yielded]
  show ?thesis
  proof (cases ng)
    case None
    with assms(1) Yielded h
    have "plan_stack c' = f' # fs" "branch_lock c' = lk'" by (auto simp: settle_def)
    with d hc show ?thesis by (simp split: if_splits)
  next
    case (Some n')
    with assms(1) Yielded h
    have "plan_stack c' = n' # f' # fs" "branch_lock c' = lk'" by (auto simp: settle_def)
    with d hc Some show ?thesis by (simp add: stack_weight_def)
  qed
next
  case (YieldedObject f')
  with assms(1) show ?thesis by (simp add: settle_def)
next
  case Stopped
  with assms(1) have "plan_stack c' = fs" "branch_lock c' = lk"
    by (auto simp: settle_def split: if_splits)
  with ended Stopped show ?thesis by simp
next
  case (Raised e)
  with assms(1) have "plan_stack c' = fs" "branch_lock c' = lk"
    by (auto simp: settle_def split: if_splits)
  with ended Raised show ?thesis by simp
next
  case Blocked
  with assms(1) show ?thesis by (simp add: settle_def)
qed

lemma step_decreases:
  assumes "step bs bc bm c = (None, c')"
  shows "weight bs c' < weight bs c"
proof (cases "plan_stack c")
  case Nil
  with assms show ?thesis by (simp add: step_def)
next
  case (Cons f fs)
  show ?thesis
  proof (cases "exception c")
    case (Some e)
    obtain r lk where t: "throw f e (branch_lock c) = (r, lk)"
      by (cases "throw f e (branch_lock c)")
    with assms Cons Some have s: "settle bm c fs (r, lk, world c) = (None, c')"
      by (simp add: step_def)
    show ?thesis unfolding weight_def Cons
    proof (rule settle_decreases[OF s])
      fix x seen f' assume "r = Yielded x seen f'"
      with t throw_yield_weight[of f e "branch_lock c" x seen f' lk "branch_bound bs" fs]
      show "stack_weight (branch_bound bs) lk (f' # fs)
              + (if lk then 0 else branch_bound bs + 5)
            < stack_weight (branch_bound bs) (branch_lock c) (f # fs)" by simp
    next
      assume "r = Stopped \<or> (\<exists>e. r = Raised e)"
      then show "stack_weight (branch_bound bs) lk fs
            < stack_weight (branch_bound bs) (branch_lock c) (f # fs)"
        using throw_end_weight[OF t] by blast
    qed
  next
    case None
    obtain r lk w where t: "send bs bc f (branch_lock c) (world c) = (r, lk, w)"
      by (cases "send bs bc f (branch_lock c) (world c)")
    with assms Cons None have s: "settle bm c fs (r, lk, w) = (None, c')"
      by (simp add: step_def)
    show ?thesis unfolding weight_def Cons
    proof (rule settle_decreases[OF s])
      fix x seen f' assume "r = Yielded x seen f'"
      with t send_yield_weight[of bs bc f "branch_lock c" "world c" x seen f' lk w fs]
      show "stack_weight (branch_bound bs) lk (f' # fs)
              + (if lk then 0 else branch_bound bs + 5)
            < stack_weight (branch_bound bs) (branch_lock c) (f # fs)" by simp
    next
      assume "r = Stopped \<or> (\<exists>e. r = Raised e)"
      then show "stack_weight (branch_bound bs) lk fs
            < stack_weight (branch_bound bs) (branch_lock c) (f # fs)"
        using send_end_weight[OF t] by blast
    qed
  qed
qed

termination run
proof (relation "measure (\<lambda>(bs, bc, bm, c). weight bs c)")
  show "wf (measure (\<lambda>(bs, bc, bm, c). weight bs c))" by simp
next
  fix branches :: "gen list" and branch_choice :: "'s selector" and branch_msg :: string
    and c :: "'s config" and x y
  assume "(x, y) = step branches branch_choice branch_msg c" "x = None"
  then have "step branches branch_choice branch_msg c = (None, y)" by simp
  from step_decreases[OF this]
  show "((branches, branch_choice, branch_msg, y), (branches, branch_choice, branch_msg, c))
          \<in> measure (\<lambda>(bs, bc, bm, c). weight bs c)" by simp
qed

declare run.simps [simp del]

section \<open>Single turns and runs of the mutator\<close>

lemma step_pass:
  "resume_gen g = Gives x g' h' \<Longrightarrow> command x \<noteq> bm \<or> lk \<Longrightarrow>
   step bs bc bm \<lparr>plan_stack = Plan g h # fs, exception = None, branch_lock = lk,
                   world = w, emitted = out\<rparr>
     = (None, \<lparr>plan_stack = Plan g' h' # fs, exception = None, branch_lock = lk,
                world = w, emitted = out @ [(x, lk)]\<rparr>)"
  by (auto simp: step_def settle_def send_def plan_step_def branch_handler_def
      acquire_nonblocking_def)

lemma step_trigger:
  "resume_gen g = Gives x g' h' \<Longrightarrow> command x = bm \<Longrightarrow>
   step bs bc bm \<lparr>plan_stack = Plan g h # fs, exception = None, branch_lock = False,
                   world = w, emitted = out\<rparr>
     = (None, \<lparr>plan_stack = NewGen Created x # Plan g' h' # fs, exception = None,
                branch_lock = False, world = w, emitted = out\<rparr>)"
  by (simp add: step_def settle_def send_def plan_step_def branch_handler_def
      acquire_nonblocking_def release_def)

lemma step_created_none:
  "bc w = (None, w') \<Longrightarrow>
   step bs bc bm \<lparr>plan_stack = NewGen Created x # fs, exception = None, branch_lock = False,
                   world = w, emitted = out\<rparr>
     = (None, \<lparr>plan_stack = NewGen AtMsg x # fs, exception = None,
                branch_lock = True, world = w', emitted = out @ [(x, True)]\<rparr>)"
  by (simp add: step_def settle_def send_def new_gen_def)

lemma step_created_some:
  "bc w = (Some i, w') \<Longrightarrow>
   step bs bc bm \<lparr>plan_stack = NewGen Created x # fs, exception = None, branch_lock = False,
                   world = w, emitted = out\<rparr>
     = (None, \<lparr>plan_stack = NewGen AtCheckpoint x # fs, exception = None,
                branch_lock = True, world = w', emitted = out @ [(checkpoint, True)]\<rparr>)"
  by (simp add: step_def settle_def send_def new_gen_def branch_handler_def
      acquire_nonblocking_def)

lemma step_at_msg:
  "fs \<noteq> [] \<Longrightarrow>
   step bs bc bm \<lparr>plan_stack = NewGen AtMsg x # fs, exception = None, branch_lock = True,
                   world = w, emitted = out\<rparr>
     = (None, \<lparr>plan_stack = fs, exception = None,
                branch_lock = False, world = w, emitted = out\<rparr>)"
  by (simp add: step_def settle_def send_def new_gen_def finished_def leave_with_def release_def)

lemma step_in_branch_yield:
  "resume_gen g = Gives y g' h' \<Longrightarrow>
   step bs bc bm \<lparr>plan_stack = NewGen (InBranch g h) x # fs, exception = None,
                   branch_lock = True, world = w, emitted = out\<rparr>
     = (None, \<lparr>plan_stack = NewGen (InBranch g' h') x # fs, exception = None,
                branch_lock = True, world = w, emitted = out @ [(y, True)]\<rparr>)"
  by (simp add: step_def settle_def send_def new_gen_def in_branch_def branch_handler_def
      acquire_nonblocking_def)

lemma step_in_branch_stop:
  "step bs bc bm \<lparr>plan_stack = NewGen (InBranch Stop h) x # fs, exception = None,
                   branch_lock = True, world = w, emitted = out\<rparr>
     = (None, \<lparr>plan_stack = NewGen AtMsg x # fs, exception = None,
                branch_lock = True, world = w, emitted = out @ [(x, True)]\<rparr>)"
  by (simp add: step_def settle_def send_def new_gen_def in_branch_def)

lemma step_in_branch_raise:
  "fs \<noteq> [] \<Longrightarrow>
   step bs bc bm \<lparr>plan_stack = NewGen (InBranch (Raise e) h) x # fs, exception = None,
                   branch_lock = True, world = w, emitted = out\<rparr>
     = (None, \<lparr>plan_stack = fs, exception = Some e,
                branch_lock = False, world = w, emitted = out\<rparr>)"
  by (simp add: step_def settle_def send_def new_gen_def in_branch_def finished_def
      leave_with_def release_def)

lemma step_at_checkpoint:
  "do_branch bs bc w = (Branch b, w') \<Longrightarrow>
   step bs bc bm \<lparr>plan_stack = NewGen AtCheckpoint x # fs, exception = None,
                   branch_lock = True, world = w, emitted = out\<rparr>
   = step bs bc bm \<lparr>plan_stack = NewGen (InBranch b None) x # fs, exception = None,
                   branch_lock = True, world = w', emitted = out\<rparr>"
  by (cases b) (simp_all add: step_def settle_def send_def new_gen_def in_branch_def
      finished_def leave_with_def release_def branch_handler_def acquire_nonblocking_def)

lemma step_at_checkpoint_null:
  "do_branch bs bc w = (NullGenerator, w') \<Longrightarrow>
   step bs bc bm \<lparr>plan_stack = NewGen AtCheckpoint x # fs, exception = None,
                   branch_lock = True, world = w, emitted = out\<rparr>
   = (Some (Failed AttributeError),
      \<lparr>plan_stack = NewGen AtNull x # fs, exception = None,
         branch_lock = True, world = w', emitted = out\<rparr>)"
  by (simp add: step_def settle_def send_def new_gen_def)

lemma step_end:
  "step bs bc bm \<lparr>plan_stack = [Plan Stop h], exception = None, branch_lock = lk,
                   world = w, emitted = out\<rparr>
     = (Some Returned, \<lparr>plan_stack = [], exception = None, branch_lock = lk,
                world = w, emitted = out\<rparr>)"
  "step bs bc bm \<lparr>plan_stack = [Plan (Raise e) h], exception = None, branch_lock = lk,
                   world = w, emitted = out\<rparr>
     = (Some (Failed e), \<lparr>plan_stack = [], exception = Some e, branch_lock = lk,
                world = w, emitted = out\<rparr>)"
  "step bs bc bm \<lparr>plan_stack = [Plan g None], exception = Some e, branch_lock = lk,
                   world = w, emitted = out\<rparr>
     = (Some (Failed e), \<lparr>plan_stack = [], exception = Some e, branch_lock = lk,
                world = w, emitted = out\<rparr>)"
  by (simp_all add: step_def settle_def send_def throw_def plan_step_def)

lemma step_caught:
  "resume_gen handler = Gives x g' h' \<Longrightarrow> command x \<noteq> bm \<Longrightarrow>
   step bs bc bm \<lparr>plan_stack = [Plan g (Some handler)], exception = Some e,
                   branch_lock = False, world = w, emitted = out\<rparr>
     = (None, \<lparr>plan_stack = [Plan g' h'], exception = None, branch_lock = False,
                world = w, emitted = out @ [(x, False)]\<rparr>)"
  "resume_gen handler = Ends \<Longrightarrow>
   step bs bc bm \<lparr>plan_stack = [Plan g (Some handler)], exception = Some e,
                   branch_lock = lk, world = w, emitted = out\<rparr>
     = (Some Returned, \<lparr>plan_stack = [], exception = Some e, branch_lock = lk,
                world = w, emitted = out\<rparr>)"
  by (simp_all add: step_def settle_def throw_def plan_step_def branch_handler_def)

lemma run_in_branch:
  "fs \<noteq> [] \<Longrightarrow>
   run bs bc bm \<lparr>plan_stack = NewGen (InBranch g h) x # fs, exception = None,
                  branch_lock = True, world = w, emitted = out\<rparr>
   = run bs bc bm
       (case ending g of
          None \<Rightarrow> \<lparr>plan_stack = fs, exception = None, branch_lock = False, world = w,
                    emitted = out @ map (\<lambda>y. (y, True)) (msgs_of g) @ [(x, True)]\<rparr>
        | Some e \<Rightarrow> \<lparr>plan_stack = fs, exception = Some e, branch_lock = False, world = w,
                    emitted = out @ map (\<lambda>y. (y, True)) (msgs_of g)\<rparr>)"
proof (induction g arbitrary: out h)
  case Stop
  then show ?case
    by (subst run.simps, simp add: step_in_branch_stop, subst run.simps, simp add: step_at_msg)
next
  case (Yield y g)
  then show ?case
    by (subst run.simps, simp add: step_in_branch_yield split: option.split)
next
  case (Try y g hh)
  then show ?case
    by (subst run.simps, simp add: step_in_branch_yield split: option.split)
next
  case (Raise e)
  then show ?case
    by (subst run.simps, simp add: step_in_branch_raise)
qed

lemma run_pass:
  "resume_gen g = Gives x g' h' \<Longrightarrow> command x \<noteq> bm \<Longrightarrow>
   run bs bc bm \<lparr>plan_stack = [Plan g h], exception = None, branch_lock = False,
                  world = w, emitted = out\<rparr>
   = run bs bc bm \<lparr>plan_stack = [Plan g' h'], exception = None, branch_lock = False,
                  world = w, emitted = out @ [(x, False)]\<rparr>"
  by (subst run.simps, simp add: step_pass)

lemma run_no_branch:
  "resume_gen g = Gives x g' h' \<Longrightarrow> command x = bm \<Longrightarrow> bc w = (None, w') \<Longrightarrow>
   run bs bc bm \<lparr>plan_stack = [Plan g h], exception = None, branch_lock = False,
                  world = w, emitted = out\<rparr>
   = run bs bc bm \<lparr>plan_stack = [Plan g' h'], exception = None, branch_lock = False,
                  world = w', emitted = out @ [(x, True)]\<rparr>"
  by (subst run.simps, simp add: step_trigger, subst run.simps, simp add: step_created_none,
      subst run.simps, simp add: step_at_msg)

lemma run_at_checkpoint:
  assumes "do_branch bs bc w = (Branch b, w')"
  shows "run bs bc bm \<lparr>plan_stack = NewGen AtCheckpoint x # fs, exception = None,
                  branch_lock = True, world = w, emitted = out\<rparr>
       = run bs bc bm \<lparr>plan_stack = NewGen (InBranch b None) x # fs, exception = None,
                  branch_lock = True, world = w', emitted = out\<rparr>"
  using run.simps[of bs bc bm "\<lparr>plan_stack = NewGen AtCheckpoint x # fs, exception = None,
                  branch_lock = True, world = w, emitted = out\<rparr>"]
    run.simps[of bs bc bm "\<lparr>plan_stack = NewGen (InBranch b None) x # fs, exception = None,
                  branch_lock = True, world = w', emitted = out\<rparr>"]
    step_at_checkpoint[OF assms, of bm x fs out]
  by simp

lemma run_to_checkpoint:
  assumes "resume_gen g = Gives x g' h'" "command x = bm" "bc w = (Some i, w1)"
  shows "run bs bc bm \<lparr>plan_stack = [Plan g h], exception = None, branch_lock = False,
                  world = w, emitted = out\<rparr>
   = run bs bc bm \<lparr>plan_stack = [NewGen AtCheckpoint x, Plan g' h'], exception = None,
                  branch_lock = True, world = w1, emitted = out @ [(checkpoint, True)]\<rparr>"
proof -
  have "run bs bc bm \<lparr>plan_stack = [Plan g h], exception = None, branch_lock = False,
                  world = w, emitted = out\<rparr>
      = run bs bc bm \<lparr>plan_stack = [NewGen Created x, Plan g' h'], exception = None,
                  branch_lock = False, world = w, emitted = out\<rparr>"
    using assms(1,2) by (subst run.simps) (simp add: step_trigger)
  also have "\<dots> = run bs bc bm \<lparr>plan_stack = [NewGen AtCheckpoint x, Plan g' h'],
                  exception = None, branch_lock = True, world = w1,
                  emitted = out @ [(checkpoint, True)]\<rparr>"
    using assms(3) by (subst run.simps) (simp add: step_created_some)
  finally show ?thesis .
qed

lemma run_branch:
  assumes "resume_gen g = Gives x g' h'" "command x = bm" "bc w = (Some i, w1)"
    and "do_branch bs bc w1 = (Branch b, w2)"
  shows "run bs bc bm \<lparr>plan_stack = [Plan g h], exception = None, branch_lock = False,
                  world = w, emitted = out\<rparr>
   = run bs bc bm
       (case ending b of
          None \<Rightarrow> \<lparr>plan_stack = [Plan g' h'], exception = None, branch_lock = False,
                    world = w2,
                    emitted = (out @ [(checkpoint, True)]) @ map (\<lambda>y. (y, True)) (msgs_of b)
                                @ [(x, True)]\<rparr>
        | Some e \<Rightarrow> \<lparr>plan_stack = [Plan g' h'], exception = Some e, branch_lock = False,
                     world = w2,
                     emitted = (out @ [(checkpoint, True)]) @ map (\<lambda>y. (y, True)) (msgs_of b)\<rparr>)"
proof -
  have "run bs bc bm \<lparr>plan_stack = [Plan g h], exception = None, branch_lock = False,
                  world = w, emitted = out\<rparr>
   = run bs bc bm \<lparr>plan_stack = [NewGen AtCheckpoint x, Plan g' h'], exception = None,
                  branch_lock = True, world = w1, emitted = out @ [(checkpoint, True)]\<rparr>"
    using assms(1,2,3) by (rule run_to_checkpoint)
  also have "\<dots>
     = run bs bc bm \<lparr>plan_stack = [NewGen (InBranch b None) x, Plan g' h'], exception = None,
                  branch_lock = True, world = w2, emitted = out @ [(checkpoint, True)]\<rparr>"
    using assms(4) by (rule run_at_checkpoint)
  also have "\<dots> = run bs bc bm
       (case ending b of
          None \<Rightarrow> \<lparr>plan_stack = [Plan g' h'], exception = None, branch_lock = False,
                    world = w2,
                    emitted = (out @ [(checkpoint, True)]) @ map (\<lambda>y. (y, True)) (msgs_of b)
                                @ [(x, True)]\<rparr>
        | Some e \<Rightarrow> \<lparr>plan_stack = [Plan g' h'], exception = Some e, branch_lock = False,
                     world = w2,
                     emitted = (out @ [(checkpoint, True)]) @ map (\<lambda>y. (y, True)) (msgs_of b)\<rparr>)"
    by (rule run_in_branch) simp
  finally show ?thesis .
qed

lemma run_null:
  assumes "resume_gen g = Gives x g' h'" "command x = bm" "bc w = (Some i, w1)"
    and "bc w1 = (None, w2)"
  shows "run bs bc bm \<lparr>plan_stack = [Plan g h], exception = None, branch_lock = False,
                  world = w, emitted = out\<rparr>
   = (Failed AttributeError,
      \<lparr>plan_stack = [NewGen AtNull x, Plan g' h'], exception = None, branch_lock = True,
         world = w2, emitted = out @ [(checkpoint, True)]\<rparr>)"
proof -
  from assms(4) have "do_branch bs bc w1 = (NullGenerator, w2)" by (simp add: do_branch_def)
  then have "run bs bc bm \<lparr>plan_stack = [NewGen AtCheckpoint x, Plan g' h'], exception = None,
                  branch_lock = True, world = w1, emitted = out @ [(checkpoint, True)]\<rparr>
     = (Failed AttributeError,
      \<lparr>plan_stack = [NewGen AtNull x, Plan g' h'], exception = None, branch_lock = True,
         world = w2, emitted = out @ [(checkpoint, True)]\<rparr>)"
    by (subst run.simps) (simp add: step_at_checkpoint_null)
  moreover have "run bs bc bm \<lparr>plan_stack = [Plan g h], exception = None, branch_lock = False,
                  world = w, emitted = out\<rparr>
   = run bs bc bm \<lparr>plan_stack = [NewGen AtCheckpoint x, Plan g' h'], exception = None,
                  branch_lock = True, world = w1, emitted = out @ [(checkpoint, True)]\<rparr>"
    using assms(1,2,3) by (rule run_to_checkpoint)
  ultimately show ?thesis by simp
qed

lemma run_end:
  "run bs bc bm \<lparr>plan_stack = [Plan Stop h], exception = None, branch_lock = lk,
                  world = w, emitted = out\<rparr>
     = (Returned, \<lparr>plan_stack = [], exception = None, branch_lock = lk,
                world = w, emitted = out\<rparr>)"
  "run bs bc bm \<lparr>plan_stack = [Plan (Raise e) h], exception = None, branch_lock = lk,
                  world = w, emitted = out\<rparr>
     = (Failed e, \<lparr>plan_stack = [], exception = Some e, branch_lock = lk,
                world = w, emitted = out\<rparr>)"
  "run bs bc bm \<lparr>plan_stack = [Plan g None], exception = Some e, branch_lock = lk,
                  world = w, emitted = out\<rparr>
     = (Failed e, \<lparr>plan_stack = [], exception = Some e, branch_lock = lk,
                world = w, emitted = out\<rparr>)"
  by (subst run.simps, simp add: step_end)+

lemma run_caught:
  "resume_gen handler = Gives x g' h' \<Longrightarrow> command x \<noteq> bm \<Longrightarrow>
   run bs bc bm \<lparr>plan_stack = [Plan g (Some handler)], exception = Some e,
                   branch_lock = False, world = w, emitted = out\<rparr>
     = run bs bc bm \<lparr>plan_stack = [Plan g' h'], exception = None, branch_lock = False,
                world = w, emitted = out @ [(x, False)]\<rparr>"
  by (subst run.simps, simp add: step_caught)

lemma run_transparent:
  assumes "\<And>w. fst (bc w) = None"
  shows "fst (run bs bc bm \<lparr>plan_stack = [Plan g h], exception = None, branch_lock = False,
                  world = w, emitted = out\<rparr>)
           = (case ending g of None \<Rightarrow> Returned | Some e \<Rightarrow> Failed e)
       \<and> stream (snd (run bs bc bm \<lparr>plan_stack = [Plan g h], exception = None,
                  branch_lock = False, world = w, emitted = out\<rparr>))
           = map fst out @ msgs_of g"
proof (induction g arbitrary: w out h)
  case Stop
  show ?case by (simp add: run_end stream_def)
next
  case (Raise e)
  show ?case by (simp add: run_end stream_def)
next
  case (Yield x g)
  have r: "resume_gen (Yield x g) = Gives x g None" by simp
  show ?case
  proof (cases "command x = bm")
    case True
    obtain w' where "bc w = (None, w')" using assms[of w] by (cases "bc w") simp
    with r True have "run bs bc bm \<lparr>plan_stack = [Plan (Yield x g) h], exception = None,
                  branch_lock = False, world = w, emitted = out\<rparr>
        = run bs bc bm \<lparr>plan_stack = [Plan g None], exception = None, branch_lock = False,
                  world = w', emitted = out @ [(x, True)]\<rparr>"
      by (rule run_no_branch)
    with Yield[of None w' "out @ [(x, True)]"] show ?thesis by simp
  next
    case False
    with r have "run bs bc bm \<lparr>plan_stack = [Plan (Yield x g) h], exception = None,
                  branch_lock = False, world = w, emitted = out\<rparr>
        = run bs bc bm \<lparr>plan_stack = [Plan g None], exception = None, branch_lock = False,
                  world = w, emitted = out @ [(x, False)]\<rparr>"
      by (rule run_pass)
    with Yield[of None w "out @ [(x, False)]"] show ?thesis by simp
  qed
next
  case (Try x g hh)
  have r: "resume_gen (Try x g hh) = Gives x g (Some hh)" by simp
  show ?case
  proof (cases "command x = bm")
    case True
    obtain w' where "bc w = (None, w')" using assms[of w] by (cases "bc w") simp
    with r True have "run bs bc bm \<lparr>plan_stack = [Plan (Try x g hh) h], exception = None,
                  branch_lock = False, world = w, emitted = out\<rparr>
        = run bs bc bm \<lparr>plan_stack = [Plan g (Some hh)], exception = None, branch_lock = False,
                  world = w', emitted = out @ [(x, True)]\<rparr>"
      by (rule run_no_branch)
    with Try.IH(1)[of "Some hh" w' "out @ [(x, True)]"] show ?thesis by simp
  next
    case False
    with r have "run bs bc bm \<lparr>plan_stack = [Plan (Try x g hh) h], exception = None,
                  branch_lock = False, world = w, emitted = out\<rparr>
        = run bs bc bm \<lparr>plan_stack = [Plan g (Some hh)], exception = None, branch_lock = False,
                  world = w, emitted = out @ [(x, False)]\<rparr>"
      by (rule run_pass)
    with Try.IH(1)[of "Some hh" w "out @ [(x, False)]"] show ?thesis by simp
  qed
qed

section \<open>An invariant of the mutator loop\<close>

lemma plan_step_cases:
  "plan_step r = Stopped \<or> (\<exists>e. plan_step r = Raised e)
     \<or> (\<exists>x g' h'. plan_step r = Yielded x False (Plan g' h'))"
  by (cases r) (simp_all add: plan_step_def)

lemma in_branch_cases:
  "in_branch g m True = (r, lk') \<Longrightarrow>
     (lk' \<and> (\<exists>x seen pt. r = Yielded x seen (NewGen pt m) \<and> pt \<noteq> Created))
     \<or> (\<not> lk' \<and> (r = Stopped \<or> (\<exists>e. r = Raised e)))"
  by (cases g) (auto simp: in_branch_def finished_def leave_with_def release_def)

lemma send_new_gen_cases:
  assumes "send bs bc (NewGen pt m) lk w = (r, lk', w')" "lk \<longleftrightarrow> pt \<noteq> Created"
  shows "(lk' \<and> (\<exists>x seen pt'. r = Yielded x seen (NewGen pt' m) \<and> pt' \<noteq> Created))
     \<or> (lk' \<and> (\<exists>pt'. r = YieldedObject (NewGen pt' m) \<and> pt' \<noteq> Created))
     \<or> (\<not> lk' \<and> (r = Stopped \<or> (\<exists>e. r = Raised e)))"
proof (cases pt)
  case Created
  with assms show ?thesis
    by (auto simp: send_def new_gen_def split: prod.splits option.splits)
next
  case AtCheckpoint
  with assms show ?thesis
    by (auto simp: send_def new_gen_def split: prod.splits delegate.splits
        dest: in_branch_cases)
next
  case AtNull
  with assms show ?thesis by (auto simp: send_def new_gen_def)
next
  case (InBranch g h)
  with assms show ?thesis
    by (auto simp: send_def new_gen_def split: prod.splits dest: in_branch_cases)
next
  case AtMsg
  with assms show ?thesis
    by (auto simp: send_def new_gen_def finished_def leave_with_def release_def)
qed

lemma throw_new_gen_cases:
  assumes "throw (NewGen pt m) e lk = (r, lk')" "lk \<longleftrightarrow> pt \<noteq> Created"
  shows "(lk' \<and> (\<exists>x seen pt'. r = Yielded x seen (NewGen pt' m) \<and> pt' \<noteq> Created))
     \<or> (\<not> lk' \<and> (r = Stopped \<or> (\<exists>e. r = Raised e)))"
proof (cases pt)
  case (InBranch g h)
  with assms show ?thesis
    by (cases h)
      (auto simp: throw_def new_gen_throw_def finished_def leave_with_def release_def
        dest: in_branch_cases)
qed (use assms in \<open>auto simp: throw_def new_gen_throw_def finished_def leave_with_def release_def\<close>)

lemma engine_inv_calm:
  "no_new_gen (plan_stack c) \<Longrightarrow> \<not> branch_lock c \<Longrightarrow> engine_inv c"
  by (auto simp: engine_inv_def no_new_gen_def split: list.splits frame.splits)

lemma settle_plan_inv:
  assumes "settle bm c fs (r, False, w) = (res, c')" "no_new_gen fs"
    and "r = Stopped \<or> (\<exists>e. r = Raised e) \<or> (\<exists>x g' h'. r = Yielded x False (Plan g' h'))"
  shows "engine_inv c'"
  using assms(3)
proof (elim disjE exE)
  fix x g' h' assume y: "r = Yielded x False (Plan g' h')"
  obtain ng lk2 where h: "branch_handler bm x False = (ng, lk2)"
    by (cases "branch_handler bm x False")
  from branch_handler_cases[OF h]
  have hc: "lk2 = False" "ng = None \<or> ng = Some (NewGen Created x)" by auto
  from assms(1,2) y h hc show ?thesis
    by (auto simp: settle_def engine_inv_def no_new_gen_def)
next
  assume "r = Stopped"
  with assms(1) have "plan_stack c' = [] \<or> plan_stack c' = fs" "branch_lock c' = False"
    by (auto simp: settle_def split: if_splits)
  with assms(2) show ?thesis by (auto intro!: engine_inv_calm simp: no_new_gen_def)
next
  fix e assume "r = Raised e"
  with assms(1) have "plan_stack c' = [] \<or> plan_stack c' = fs" "branch_lock c' = False"
    by (auto simp: settle_def split: if_splits)
  with assms(2) show ?thesis by (auto intro!: engine_inv_calm simp: no_new_gen_def)
qed

lemma settle_new_gen_inv:
  assumes "settle bm c fs (r, lk', w) = (res, c')" "no_new_gen fs"
    and "(lk' \<and> (\<exists>x seen pt'. r = Yielded x seen (NewGen pt' m) \<and> pt' \<noteq> Created))
     \<or> (lk' \<and> (\<exists>pt'. r = YieldedObject (NewGen pt' m) \<and> pt' \<noteq> Created))
     \<or> (\<not> lk' \<and> (r = Stopped \<or> (\<exists>e. r = Raised e)))"
  shows "engine_inv c'"
  using assms(3)
proof (elim disjE conjE exE)
  fix x seen pt'
  assume y: "lk'" "r = Yielded x seen (NewGen pt' m)" "pt' \<noteq> Created"
  from y(1) have h: "(if seen then (None, lk') else branch_handler bm x lk') = (None, lk')"
    by (simp add: branch_handler_def acquire_nonblocking_def)
  from assms(1) y(2) h
  have "plan_stack c' = NewGen pt' m # fs" "branch_lock c' = lk'"
    by (auto simp: settle_def)
  with y assms(2) show ?thesis by (simp add: engine_inv_def)
next
  fix pt'
  assume y: "lk'" "r = YieldedObject (NewGen pt' m)" "pt' \<noteq> Created"
  with assms(1) have "plan_stack c' = NewGen pt' m # fs" "branch_lock c' = lk'"
    by (auto simp: settle_def)
  with y assms(2) show ?thesis by (simp add: engine_inv_def)
next
  assume "\<not> lk'" "r = Stopped"
  with assms(1) have "plan_stack c' = [] \<or> plan_stack c' = fs" "\<not> branch_lock c'"
    by (auto simp: settle_def split: if_splits)
  with assms(2) show ?thesis by (auto intro!: engine_inv_calm simp: no_new_gen_def)
next
  fix e assume "\<not> lk'" "r = Raised e"
  with assms(1) have "plan_stack c' = [] \<or> plan_stack c' = fs" "\<not> branch_lock c'"
    by (auto simp: settle_def split: if_splits)
  with assms(2) show ?thesis by (auto intro!: engine_inv_calm simp: no_new_gen_def)
qed

lemma step_engine_inv:
  assumes "engine_inv c" "step bs bc bm c = (r, c')"
  shows "engine_inv c'"
proof (cases "plan_stack c")
  case Nil
  with assms show ?thesis by (simp add: step_def)
next
  case (Cons f fs)
  from assms(1) Cons have fs: "no_new_gen fs"
    by (auto simp: engine_inv_def split: frame.splits)
  show ?thesis
  proof (cases f)
    case (Plan g h)
    with assms(1) Cons have free: "\<not> branch_lock c" by (simp add: engine_inv_def)
    show ?thesis
    proof (cases "exception c")
      case None
      with assms(2) Cons Plan free
      have "settle bm c fs (plan_step (resume_gen g), False, world c) = (r, c')"
        by (simp add: step_def send_def)
      from settle_plan_inv[OF this fs plan_step_cases] show ?thesis .
    next
      case (Some e)
      show ?thesis
      proof (cases h)
        case None
        with assms(2) Cons Plan free Some
        have "settle bm c fs (Raised e, False, world c) = (r, c')"
          by (simp add: step_def throw_def)
        from settle_plan_inv[OF this fs] show ?thesis by simp
      next
        case (Some hh)
        with assms(2) Cons Plan free \<open>exception c = Some e\<close>
        have "settle bm c fs (plan_step (resume_gen hh), False, world c) = (r, c')"
          by (simp add: step_def throw_def)
        from settle_plan_inv[OF this fs plan_step_cases] show ?thesis .
      qed
    qed
  next
    case (NewGen pt m)
    with assms(1) Cons have lk: "branch_lock c \<longleftrightarrow> pt \<noteq> Created" by (simp add: engine_inv_def)
    show ?thesis
    proof (cases "exception c")
      case None
      obtain res lk' w' where s: "send bs bc (NewGen pt m) (branch_lock c) (world c) = (res, lk', w')"
        by (cases "send bs bc (NewGen pt m) (branch_lock c) (world c)")
      with assms(2) Cons NewGen None have "settle bm c fs (res, lk', w') = (r, c')"
        by (simp add: step_def)
      from settle_new_gen_inv[OF this fs send_new_gen_cases[OF s lk]] show ?thesis .
    next
      case (Some e)
      obtain res lk' where t: "throw (NewGen pt m) e (branch_lock c) = (res, lk')"
        by (cases "throw (NewGen pt m) e (branch_lock c)")
      with assms(2) Cons NewGen Some have s: "settle bm c fs (res, lk', world c) = (r, c')"
        by (simp add: step_def)
      from throw_new_gen_cases[OF t lk]
      have "(lk' \<and> (\<exists>x seen pt'. res = Yielded x seen (NewGen pt' m) \<and> pt' \<noteq> Created))
         \<or> (lk' \<and> (\<exists>pt'. res = YieldedObject (NewGen pt' m) \<and> pt' \<noteq> Created))
         \<or> (\<not> lk' \<and> (res = Stopped \<or> (\<exists>e. res = Raised e)))" by blast
      from settle_new_gen_inv[OF s fs this] show ?thesis .
    qed
  qed
qed

lemma engine_inv_initial: "engine_inv (initial plan w)"
  by (simp add: engine_inv_def initial_def no_new_gen_def)

lemma turns_engine_inv:
  "engine_inv c \<Longrightarrow> engine_inv (turns bs bc bm n c)"
proof (induction n arbitrary: c)
  case 0
  then show ?case by simp
next
  case (Suc n)
  obtain r c' where s: "step bs bc bm c = (r, c')" by (cases "step bs bc bm c")
  from step_engine_inv[OF Suc.prems s] have "engine_inv c'" .
  with Suc.IH[of c'] s show ?case by (cases r) simp_all
qed

lemma engine_inv_one_new_gen:
  "engine_inv c \<Longrightarrow> length (filter is_new_gen (plan_stack c)) \<le> 1"
  by (auto simp: engine_inv_def no_new_gen_def split: list.splits frame.splits)

section \<open>The claims about the branching engine\<close>

text \<open>
  C1, as the specification states it, fails: the engine asks the selector twice at an
  accepted trigger, and the branch that runs is the one named by the second answer.  In
  the scenario with two branches and a selector that answers \<open>0\<close> and then \<open>1\<close> at the first
  checkpoint, the selector has returned index \<open>0\<close> there, yet what comes out is the second
  branch, \<open>Move(S)\<close>, and \<open>Move(R)\<close> never comes out.
\<close>

theorem resume_after_branch_counterexample:
  "fst (scripted [Some 0, Some 1]) = Some 0
   \<and> py_index [recover_branch, second_branch] 0 = Some recover_branch
   \<and> stream (snd (branching_plan scenario_plan [recover_branch, second_branch] scripted
         ''checkpoint'' [Some 0, Some 1]))
       = [checkpoint, move ''S'', checkpoint, move ''A'', checkpoint, move ''B'']
   \<and> move ''R'' \<notin> set (stream (snd (branching_plan scenario_plan
         [recover_branch, second_branch] scripted ''checkpoint'' [Some 0, Some 1])))"
  by code_simp

text \<open>
  C1, amended.  When the engine pulls a trigger message \<open>c\<close> from the primary plan, its
  first evaluation of the selector (the guard in \<open>new_gen\<close>) answers some index, and its
  second evaluation (in \<open>do_branch\<close>) answers the index \<open>i\<close> of a branch that runs to
  completion, then what comes out in place of \<open>c\<close> is a fresh checkpoint, the messages of
  branch \<open>i\<close>, and \<open>c\<close> itself; the engine then goes on with the rest of the primary plan,
  with the lock free.
\<close>

theorem resume_after_branch:
  assumes "resume_gen plan = Gives c rest h"
    and "command c = branch_msg"
    and "branch_choice w = (Some first, w1)"
    and "branch_choice w1 = (Some i, w2)"
    and "py_index branches i = Some b"
    and "ending b = None"
  shows "run branches branch_choice branch_msg
           \<lparr>plan_stack = [Plan plan h0], exception = None, branch_lock = False,
              world = w, emitted = out\<rparr>
       = run branches branch_choice branch_msg
           \<lparr>plan_stack = [Plan rest h], exception = None, branch_lock = False, world = w2,
              emitted = out @ [(checkpoint, True)] @ map (\<lambda>y. (y, True)) (msgs_of b)
                          @ [(c, True)]\<rparr>"
proof -
  from assms(4,5) have d: "do_branch branches branch_choice w1 = (Branch b, w2)"
    by (simp add: do_branch_def)
  have "run branches branch_choice branch_msg
           \<lparr>plan_stack = [Plan plan h0], exception = None, branch_lock = False,
              world = w, emitted = out\<rparr>
       = run branches branch_choice branch_msg
       (case ending b of
          None \<Rightarrow> \<lparr>plan_stack = [Plan rest h], exception = None, branch_lock = False,
                    world = w2,
                    emitted = (out @ [(checkpoint, True)]) @ map (\<lambda>y. (y, True)) (msgs_of b)
                                @ [(c, True)]\<rparr>
        | Some e \<Rightarrow> \<lparr>plan_stack = [Plan rest h], exception = Some e, branch_lock = False,
                     world = w2,
                     emitted = (out @ [(checkpoint, True)]) @ map (\<lambda>y. (y, True)) (msgs_of b)\<rparr>)"
    using assms(1,2,3) d by (rule run_branch)
  with assms(6) show ?thesis by simp
qed

text \<open>
  The scenario of the specification, with the selector answering \<open>0\<close> at both evaluations
  made at the first checkpoint and \<open>None\<close> at the second checkpoint.
\<close>

theorem resume_after_branch_witness:
  "resume_gen scenario_plan
     = Gives checkpoint (Yield (move ''A'') (Yield checkpoint (Yield (move ''B'') Stop))) None
   \<and> command checkpoint = ''checkpoint''
   \<and> scripted [Some 0, Some 0] = (Some 0, [Some 0])
   \<and> scripted [Some 0] = (Some 0, [])
   \<and> py_index [recover_branch] 0 = Some recover_branch
   \<and> ending recover_branch = None
   \<and> stream (snd (branching_plan scenario_plan [recover_branch] scripted ''checkpoint''
         [Some 0, Some 0]))
     = [checkpoint, move ''R'', checkpoint, move ''A'', checkpoint, move ''B'']"
  using resume_after_branch[of scenario_plan checkpoint
      "Yield (move ''A'') (Yield checkpoint (Yield (move ''B'') Stop))" None "''checkpoint''"
      scripted "[Some 0, Some 0]" 0 "[Some 0]" 0 "[]" "[recover_branch]" recover_branch None "[]"]
  by (simp add: branching_plan_def initial_def stream_def scripted_def checkpoint_def
      scenario_plan_def recover_branch_def move_def
      py_index_def run_pass run_no_branch run_end)

text \<open>
  C2.  If the selector answers \<open>None\<close> at every evaluation, the stream that comes out of
  \<open>branching_plan\<close> is the primary plan's own stream, message for message, and the engine
  ends the way the primary plan ends.
\<close>

theorem no_op_branching:
  assumes "\<And>w. fst (branch_choice w) = None"
  shows "stream (snd (branching_plan plan branches branch_choice branch_msg w)) = msgs_of plan
       \<and> fst (branching_plan plan branches branch_choice branch_msg w)
           = (case ending plan of None \<Rightarrow> Returned | Some e \<Rightarrow> Failed e)"
  using run_transparent[OF assms, where bs = branches and bm = branch_msg and g = plan
      and h = None and w = w and out = "[]"]
  by (simp add: branching_plan_def initial_def)

theorem no_op_branching_witness:
  "(\<forall>w::unit. fst (never w) = None)
   \<and> stream (snd (branching_plan scenario_plan [recover_branch] never ''checkpoint'' ()))
     = [checkpoint, move ''A'', checkpoint, move ''B'']"
  using no_op_branching[of never scenario_plan "[recover_branch]" "''checkpoint''" "()"]
  by (simp add: never_def scenario_plan_def)




text \<open>
  C4.  A trigger message that reaches \<open>branch_handler\<close> while the lock is held gets no
  replacement and the lock stays as it is; so when a generator yields a message and the
  lock is held afterwards (as for the fresh checkpoint of \<open>new_gen\<close>), the turn of the loop
  sends that message out unchanged, raises nothing, and pushes no generator.  In every
  configuration that a run of \<open>branching_plan\<close> goes through, at most one \<open>new_gen\<close> is on
  the stack.
\<close>

theorem reentrant_trigger_passes:
  "branch_handler branch_msg m True = (None, True)
   \<and> (plan_stack c = f # fs \<and> exception c = None
        \<and> send branches branch_choice f (branch_lock c) (world c) = (Yielded m seen f', True, w')
       \<longrightarrow> step branches branch_choice branch_msg c
           = (None, c\<lparr>plan_stack := f' # fs, branch_lock := True, world := w',
                       emitted := emitted c @ [(m, True)]\<rparr>))
   \<and> length (filter is_new_gen
        (plan_stack (turns branches branch_choice branch_msg n (initial plan w)))) \<le> 1"
proof (intro conjI impI)
  show "branch_handler branch_msg m True = (None, True)"
    by (simp add: branch_handler_def acquire_nonblocking_def)
next
  assume a: "plan_stack c = f # fs \<and> exception c = None
        \<and> send branches branch_choice f (branch_lock c) (world c) = (Yielded m seen f', True, w')"
  then have "c\<lparr>plan_stack := f' # fs, exception := None, branch_lock := True, world := w',
               emitted := emitted c @ [(m, True)]\<rparr>
           = c\<lparr>plan_stack := f' # fs, branch_lock := True, world := w',
               emitted := emitted c @ [(m, True)]\<rparr>"
    by (cases c) simp
  with a show "step branches branch_choice branch_msg c
           = (None, c\<lparr>plan_stack := f' # fs, branch_lock := True, world := w',
                       emitted := emitted c @ [(m, True)]\<rparr>)"
    by (simp add: step_def settle_def branch_handler_def acquire_nonblocking_def)
next
  from turns_engine_inv[OF engine_inv_initial]
  have "engine_inv (turns branches branch_choice branch_msg n (initial plan w))" .
  then show "length (filter is_new_gen
        (plan_stack (turns branches branch_choice branch_msg n (initial plan w)))) \<le> 1"
    by (rule engine_inv_one_new_gen)
qed

text \<open>
  The fresh checkpoint of the scenario, yielded by a \<open>new_gen\<close> that has just taken the
  lock, and the stack of the scenario after three turns.
\<close>

theorem reentrant_trigger_passes_witness:
  "plan_stack \<lparr>plan_stack = [NewGen Created checkpoint, Plan Stop None], exception = None,
                branch_lock = False, world = [Some 0, Some 0], emitted = []\<rparr>
     = [NewGen Created checkpoint, Plan Stop None]
   \<and> send [recover_branch] scripted (NewGen Created checkpoint) False [Some 0, Some 0]
     = (Yielded checkpoint False (NewGen AtCheckpoint checkpoint), True, [Some 0])
   \<and> command checkpoint = ''checkpoint''
   \<and> step [recover_branch] scripted ''checkpoint''
        \<lparr>plan_stack = [NewGen Created checkpoint, Plan Stop None], exception = None,
           branch_lock = False, world = [Some 0, Some 0], emitted = []\<rparr>
     = (None, \<lparr>plan_stack = [NewGen AtCheckpoint checkpoint, Plan Stop None], exception = None,
                branch_lock = True, world = [Some 0], emitted = [(checkpoint, True)]\<rparr>)
   \<and> length (filter is_new_gen (plan_stack (turns [recover_branch] scripted ''checkpoint'' 3
        (initial scenario_plan [Some 0, Some 0])))) = 1"
  using reentrant_trigger_passes[of "''checkpoint''" checkpoint
      "\<lparr>plan_stack = [NewGen Created checkpoint, Plan Stop None], exception = None,
         branch_lock = False, world = [Some 0, Some 0], emitted = []\<rparr>"
      "NewGen Created checkpoint" "[Plan Stop None]" "[recover_branch]" scripted False
      "NewGen AtCheckpoint checkpoint" "[Some 0]" 3 scenario_plan "[Some 0, Some 0]"]
  by (simp add: send_def new_gen_def scripted_def checkpoint_def, code_simp)

text \<open>
  C6, as the specification states it, fails: \<open>plan_mutator\<close> throws the exception of the
  branch into the primary plan, at the trigger point where that plan is suspended.  A
  primary plan that stands in a \<open>try\<close> there goes on as its handler: in the scenario
  with such a plan the run returns normally after the handler's \<open>Move(home)\<close>, and no
  exception leaves the engine.
\<close>

theorem branch_failure_aborts_counterexample:
  "ending failing_branch = Some (PlanFailure ''motion fault'')
   \<and> fst (branching_plan guarded_plan [failing_branch] scripted ''checkpoint'' [Some 0, Some 0])
       = Returned
   \<and> stream (snd (branching_plan guarded_plan [failing_branch] scripted ''checkpoint''
         [Some 0, Some 0]))
       = [checkpoint, move ''R'', move ''home'']"
  by code_simp

text \<open>
  C6, amended.  If the branch that \<open>do_branch\<close> runs raises \<open>e\<close>, the exception leaves
  \<open>new_gen\<close> with the lock released, the selector is not asked again (the branch is not
  tried again), and \<open>e\<close> is thrown into the primary plan at the trigger point where it is
  suspended, after the messages the branch yielded before it raised.  When the primary
  plan has no handler at that point, the run of the engine fails with \<open>e\<close>: nothing more
  comes out, neither the original trigger message nor the rest of the primary plan, and
  the lock is free at the end.
\<close>

theorem branch_failure_aborts:
  assumes "resume_gen plan = Gives c rest h"
    and "command c = branch_msg"
    and "branch_choice w = (Some i, w1)"
    and "branch_choice w1 = (Some j, w2)"
    and "py_index branches j = Some b"
    and "ending b = Some e"
  shows "run branches branch_choice branch_msg
           \<lparr>plan_stack = [Plan plan h0], exception = None, branch_lock = False,
              world = w, emitted = out\<rparr>
         = run branches branch_choice branch_msg
           \<lparr>plan_stack = [Plan rest h], exception = Some e, branch_lock = False, world = w2,
              emitted = out @ [(checkpoint, True)] @ map (\<lambda>y. (y, True)) (msgs_of b)\<rparr>
       \<and> (h = None \<longrightarrow>
           run branches branch_choice branch_msg
             \<lparr>plan_stack = [Plan plan h0], exception = None, branch_lock = False,
                world = w, emitted = out\<rparr>
           = (Failed e,
              \<lparr>plan_stack = [], exception = Some e, branch_lock = False, world = w2,
                 emitted = out @ [(checkpoint, True)] @ map (\<lambda>y. (y, True)) (msgs_of b)\<rparr>))"
proof -
  from assms(4,5) have d: "do_branch branches branch_choice w1 = (Branch b, w2)"
    by (simp add: do_branch_def)
  have "run branches branch_choice branch_msg
           \<lparr>plan_stack = [Plan plan h0], exception = None, branch_lock = False,
              world = w, emitted = out\<rparr>
       = run branches branch_choice branch_msg
       (case ending b of
          None \<Rightarrow> \<lparr>plan_stack = [Plan rest h], exception = None, branch_lock = False,
                    world = w2,
                    emitted = (out @ [(checkpoint, True)]) @ map (\<lambda>y. (y, True)) (msgs_of b)
                                @ [(c, True)]\<rparr>
        | Some e \<Rightarrow> \<lparr>plan_stack = [Plan rest h], exception = Some e, branch_lock = False,
                     world = w2,
                     emitted = (out @ [(checkpoint, True)]) @ map (\<lambda>y. (y, True)) (msgs_of b)\<rparr>)"
    using assms(1,2,3) d by (rule run_branch)
  with assms(6) show ?thesis by (simp add: run_end)
qed

text \<open>The scenario with a branch that raises a motion fault after \<open>Move(R)\<close>.\<close>

theorem branch_failure_aborts_witness:
  "resume_gen scenario_plan
     = Gives checkpoint (Yield (move ''A'') (Yield checkpoint (Yield (move ''B'') Stop))) None
   \<and> command checkpoint = ''checkpoint''
   \<and> scripted [Some 0, Some 0] = (Some 0, [Some 0])
   \<and> scripted [Some 0] = (Some 0, [])
   \<and> py_index [failing_branch] 0 = Some failing_branch
   \<and> ending failing_branch = Some (PlanFailure ''motion fault'')
   \<and> branching_plan scenario_plan [failing_branch] scripted ''checkpoint'' [Some 0, Some 0]
     = (Failed (PlanFailure ''motion fault''),
        \<lparr>plan_stack = [], exception = Some (PlanFailure ''motion fault''), branch_lock = False,
           world = [], emitted = [(checkpoint, True), (move ''R'', True)]\<rparr>)"
  using branch_failure_aborts[of scenario_plan checkpoint
      "Yield (move ''A'') (Yield checkpoint (Yield (move ''B'') Stop))" None "''checkpoint''"
      scripted "[Some 0, Some 0]" 0 "[Some 0]" 0 "[]" "[failing_branch]" failing_branch
      "PlanFailure ''motion fault''" None "[]"]
  by (simp add: branching_plan_def initial_def scripted_def checkpoint_def
      scenario_plan_def failing_branch_def move_def py_index_def run_end)

text \<open>
  C9.  At the first checkpoint of the scenario the selector is asked twice.  With the
  answers \<open>1\<close> and then \<open>0\<close> the branch that runs is the one at index \<open>0\<close>, the second
  answer.  With the answers \<open>0\<close> and then \<open>None\<close>, \<open>do_branch\<close> yields the generator object
  of \<open>null()\<close> instead of a null message: after the fresh checkpoint the run fails with
  \<open>AttributeError\<close>, with \<open>new_gen\<close> still suspended and the lock still held; no null
  message and no original trigger message come out.
\<close>

theorem choice_evaluated_twice:
  "stream (snd (branching_plan scenario_plan [recover_branch, second_branch] scripted
      ''checkpoint'' [Some 1, Some 0]))
     = [checkpoint, move ''R'', checkpoint, move ''A'', checkpoint, move ''B'']
   \<and> branching_plan scenario_plan [recover_branch] scripted ''checkpoint'' [Some 0]
     = (Failed AttributeError,
        \<lparr>plan_stack = [NewGen AtNull checkpoint,
                        Plan (Yield (move ''A'') (Yield checkpoint (Yield (move ''B'') Stop))) None],
           exception = None, branch_lock = True, world = [],
           emitted = [(checkpoint, True)]\<rparr>)"
  by code_simp

section \<open>The claims about the HOMS plans and about paths\<close>

lemma goals_fixed_point: "map (\<lambda>g. 480 - g) goals = goals \<longleftrightarrow> (\<forall>g \<in> set goals. g = 240)"
  for goals :: "real list"
  by (induction goals) auto

text \<open>
  C5.  The claim describes the code after the first statement of \<open>pick_recover\<close>; the
  function returns \<open>None\<close> before it.  With imager 1 in the beam (\<open>"IN"\<close>) and both floors
  at \<open>0.1\<close>, whatever its signal, the selector made by \<open>make_pick_recover\<close> answers \<open>None\<close>,
  in every state of the devices.
\<close>

theorem pick_recover_disabled:
  "fst (make_pick_recover hx2_imager dg3_imager [0.1, 0.1] w) = None"
  by (simp add: make_pick_recover_def)

text \<open>
  C7.  The recovery plan made by \<open>make_homs_recover\<close> hands \<open>recover_threshold\<close> the
  direction \<open>+1\<close> when the position of the motor is below the center, and \<open>-1\<close> otherwise,
  also when the position is the center.
\<close>

theorem initial_scan_direction:
  assumes "make_homs_recover yags yag_index motor threshold center get_signal = Inr plan"
  shows "(mirror_position motor < center \<longrightarrow> List.map_filter scan_direction plan = [1])
       \<and> (center \<le> mirror_position motor \<longrightarrow> List.map_filter scan_direction plan = [- 1])"
  using assms
  by (auto simp: make_homs_recover_def Let_def List.map_filter_def split: option.splits)

text \<open>Center 240: from position 100 the direction is \<open>+1\<close>, from 300 and from 240 it is \<open>-1\<close>.\<close>

theorem initial_scan_direction_witness:
  "make_homs_recover [hx2_imager, dg3_imager] 0 (m1h_at 100) 0.1 240 get_thresh_signal
     = Inr [prep_img_motors 0 [hx2_imager, dg3_imager] 10,
            recover_threshold ''hx2_centroid_y'' 0.1 (m1h_at 100) 1 120 False]
   \<and> mirror_position (m1h_at 100) < 240
   \<and> List.map_filter scan_direction
        [prep_img_motors 0 [hx2_imager, dg3_imager] 10,
         recover_threshold ''hx2_centroid_y'' 0.1 (m1h_at 100) 1 120 False] = [1]
   \<and> make_homs_recover [hx2_imager, dg3_imager] 0 (m1h_at 300) 0.1 240 get_thresh_signal
     = Inr [prep_img_motors 0 [hx2_imager, dg3_imager] 10,
            recover_threshold ''hx2_centroid_y'' 0.1 (m1h_at 300) (- 1) 120 False]
   \<and> 240 \<le> mirror_position (m1h_at 300)
   \<and> make_homs_recover [hx2_imager, dg3_imager] 0 (m1h_at 240) 0.1 240 get_thresh_signal
     = Inr [prep_img_motors 0 [hx2_imager, dg3_imager] 10,
            recover_threshold ''hx2_centroid_y'' 0.1 (m1h_at 240) (- 1) 120 False]"
  using initial_scan_direction[of "[hx2_imager, dg3_imager]" 0 "m1h_at 100" "0.1" 240
      get_thresh_signal "[prep_img_motors 0 [hx2_imager, dg3_imager] 10,
            recover_threshold ''hx2_centroid_y'' 0.1 (m1h_at 100) 1 120 False]"]
    initial_scan_direction[of "[hx2_imager, dg3_imager]" 0 "m1h_at 300" "0.1" 240
      get_thresh_signal "[prep_img_motors 0 [hx2_imager, dg3_imager] 10,
            recover_threshold ''hx2_centroid_y'' 0.1 (m1h_at 300) (- 1) 120 False]"]
  by (simp add: make_homs_recover_def py_index_def get_thresh_signal_def hx2_imager_def
      m1h_at_def List.map_filter_def)

text \<open>
  C8.  \<open>prune_path\<close> makes a new path whose devices are the devices of the original path
  without the excluded ones: no excluded device is in it, each of its devices is a device
  (the same object) of the original path, and the original path still has the devices it
  had.
\<close>

theorem prune_path_exclusion:
  assumes "p < length store"
    and "prune_path store p exclude = (p', store')"
  shows "set (devices (store' ! p')) = set (devices (store ! p)) - set exclude
       \<and> set (devices (store' ! p')) \<inter> set exclude = {}
       \<and> set (devices (store' ! p')) \<subseteq> set (devices (store ! p))
       \<and> devices (store' ! p) = devices (store ! p)
       \<and> p' \<noteq> p"
  using assms by (auto simp: prune_path_def nth_append)

text \<open>
  As in \<open>test_prune_path\<close>: every other device of a path of five is excluded.
\<close>

theorem prune_path_exclusion_witness:
  "(1::nat) < length [\<lparr>devices = [7]\<rparr>, \<lparr>devices = [10, 11, 12, 13, 14]\<rparr>]
   \<and> prune_path [\<lparr>devices = [7]\<rparr>, \<lparr>devices = [10, 11, 12, 13, 14]\<rparr>] 1 [10, 12, 14]
       = (2, [\<lparr>devices = [7]\<rparr>, \<lparr>devices = [10, 11, 12, 13, 14]\<rparr>, \<lparr>devices = [11, 13]\<rparr>])
   \<and> set (devices ([\<lparr>devices = [7]\<rparr>, \<lparr>devices = [10, 11, 12, 13, 14]\<rparr>,
          \<lparr>devices = [11, 13]\<rparr>] ! 2)) = {11, 13}"
  using prune_path_exclusion[of 1 "[\<lparr>devices = [7]\<rparr>, \<lparr>devices = [10, 11, 12, 13, 14]\<rparr>]"
      "[10, 12, 14]" 2 "[\<lparr>devices = [7]\<rparr>, \<lparr>devices = [10, 11, 12, 13, 14]\<rparr>, \<lparr>devices = [11, 13]\<rparr>]"]
  by (simp add: prune_path_def)

text \<open>
  C10, as stated, fails for a caller that passes its own \<open>goals\<close> in \<open>md\<close>:
  \<open>_md.update(md or {})\<close> puts the caller's entry in place of the goals that were given.
\<close>

theorem homs_goals_metadata_counterexample:
  "map_sum id (\<lambda>r. fst r ''goals'')
     (homs_skywalker homs_devices [100] (Inl ''y1'') (Inl ''y2'') None 5 100 600 [0.1, 0.1]
        (Some [''goals'' \<mapsto> Nums [1]]) 0.0001)
   = Inr (Some (Nums [1]))"
  by (simp add: homs_skywalker_def homs_devices_def resolve_def md_or_empty_def Let_def)

text \<open>
  C10, amended.  When the imagers are found, the goals handed on to \<open>skywalker\<close> are
  \<open>480 - g\<close> for each goal \<open>g\<close>, and the entry \<open>goals\<close> of the metadata of the run that
  \<open>homs_skywalker\<close> opens is the caller's own \<open>goals\<close> entry of \<open>md\<close> if there is one, and
  otherwise the goals as they were given; the goals as given and the goals handed on are
  the same list only when every goal is 240.
\<close>

theorem homs_goals_metadata:
  assumes "resolve system y1 = Inr d1"
    and "resolve system y2 = Inr d2"
  shows "\<exists>the_md w.
           homs_skywalker system goals y1 y2 gradients tolerances averages timeout
             has_beam_floor md first_steps = Inr (the_md, w)
         \<and> the_md ''goals''
             = Some (case md_or_empty md ''goals'' of None \<Rightarrow> Nums goals | Some v \<Rightarrow> v)
         \<and> walk_goals w = map (\<lambda>g. 480 - g) goals
         \<and> (walk_goals w = goals \<longleftrightarrow> (\<forall>g \<in> set goals. g = 240))"
  using assms goals_fixed_point[of goals]
  by (auto simp: homs_skywalker_def skywalker_def Let_def map_add_def split: option.splits)

text \<open>
  Goals 240 and 100 and no metadata from the caller: the metadata keeps 240 and 100, the
  walk is driven to 240 and 380.
\<close>

theorem homs_goals_metadata_witness:
  "resolve homs_devices (Inl ''y1'') = Inr hx2_imager
   \<and> resolve homs_devices (Inl ''y2'') = Inr dg3_imager
   \<and> map_sum id (\<lambda>r. (fst r ''goals'', walk_goals (snd r)))
        (homs_skywalker homs_devices [240, 100] (Inl ''y1'') (Inl ''y2'') None 5 100 600
           [0.1, 0.1] None 0.0001)
     = Inr (Some (Nums [240, 100]), [240, 380])"
  using homs_goals_metadata[of homs_devices "Inl ''y1''" hx2_imager "Inl ''y2''" dg3_imager
      "[240, 100]" None 5 100 600 "[0.1, 0.1]" None "0.0001"]
  by (auto simp: resolve_def homs_devices_def md_or_empty_def skywalker_def)

end
